theory Spec2Isabelle
  imports Main
begin

section \<open>Hardware model\<close>

text \<open>
  The sketch talks to the board only through the Arduino calls \<open>pinMode\<close>,
  \<open>digitalWrite\<close>, \<open>digitalRead\<close>, \<open>delay\<close> and \<open>wdt_reset\<close>.  Every such call
  is recorded, in program order, in \<open>io_log\<close>; the direction and the written level of
  each pin are kept as well.  The 3V sense line is an input of the environment: \<open>sense\<close>
  holds the level seen by each successive \<open>digitalRead\<close>, and \<open>nreads\<close> counts the reads
  done so far.
\<close>

datatype level = LOW | HIGH

datatype pin_mode = INPUT | OUTPUT

datatype io_event =
    PinMode nat pin_mode
  | DigitalWrite nat level
  | DigitalRead nat level
  | Delay nat
  | WdtReset

text \<open>History of the device procedures entered by \<open>action\<close>, oldest first.\<close>

datatype primitive = Turn_On | Turn_Off | Message_OK | Message_Custom

definition LED :: nat where
  "LED = 13"

definition SpotOnOffButton :: nat where
  "SpotOnOffButton = 9"

definition SpotOn3VSense :: nat where
  "SpotOn3VSense = 12"

definition SpotOkMsgButton :: nat where
  "SpotOkMsgButton = 10"

definition SpotCustomMsgButton :: nat where
  "SpotCustomMsgButton = 11"

definition kSpotOffTime :: int where
  "kSpotOffTime = 60"

definition kSpotOnTime :: int where
  "kSpotOnTime = 38"

text \<open>
  \<open>enum SpotGPSState_Type\<close>: the enumerators are the integers 0 to 5.  The variable is
  kept as the integer it is stored as, so that a value outside the enumeration (the
  \<open>default\<close> branch of \<open>action\<close>) can be written down.
\<close>

definition Power_Off :: int where
  "Power_Off = 0"

definition Power_On :: int where
  "Power_On = 1"

definition Sending_Ok :: int where
  "Sending_Ok = 2"

definition Power_Off_2 :: int where
  "Power_Off_2 = 3"

definition Power_On_2 :: int where
  "Power_On_2 = 4"

definition Sending_Custom :: int where
  "Sending_Custom = 5"

record controller =
  counter8s :: int
  SpotGPSState :: int
  q8SecondBlocks :: int
  modes :: "nat \<Rightarrow> pin_mode"
  outs :: "nat \<Rightarrow> level"
  sense :: "nat \<Rightarrow> level"
  nreads :: nat
  io_log :: "io_event list"
  calls :: "primitive list"

text \<open>\<open>int\<close> on the ATmega is 16 bits wide, two's complement.\<close>

definition wrap16 :: "int \<Rightarrow> int" where
  "wrap16 x = (x + 32768) mod 65536 - 32768"

definition pinMode :: "nat \<Rightarrow> pin_mode \<Rightarrow> controller \<Rightarrow> controller" where
  "pinMode p m s = s\<lparr>modes := (modes s)(p := m), io_log := io_log s @ [PinMode p m]\<rparr>"

definition digitalWrite :: "nat \<Rightarrow> level \<Rightarrow> controller \<Rightarrow> controller" where
  "digitalWrite p v s = s\<lparr>outs := (outs s)(p := v), io_log := io_log s @ [DigitalWrite p v]\<rparr>"

text \<open>The only pin the sketch reads is \<open>SpotOn3VSense\<close>.\<close>

definition digitalRead :: "nat \<Rightarrow> controller \<Rightarrow> level \<times> controller" where
  "digitalRead p s =
     (sense s (nreads s),
      s\<lparr>nreads := nreads s + 1, io_log := io_log s @ [DigitalRead p (sense s (nreads s))]\<rparr>)"

definition delay :: "nat \<Rightarrow> controller \<Rightarrow> controller" where
  "delay ms s = s\<lparr>io_log := io_log s @ [Delay ms]\<rparr>"

definition wdt_reset :: "controller \<Rightarrow> controller" where
  "wdt_reset s = s\<lparr>io_log := io_log s @ [WdtReset]\<rparr>"

text \<open>
  \<open>enter p\<close> notes in \<open>calls\<close> that procedure \<open>p\<close> has been entered.  \<open>calls\<close> is a
  history kept for the proofs; the sketch neither reads nor writes it.
\<close>

definition enter :: "primitive \<Rightarrow> controller \<Rightarrow> controller" where
  "enter p s = s\<lparr>calls := calls s @ [p]\<rparr>"

section \<open>The sketch\<close>

text \<open>\<open>setup()\<close> of the sketch (\<open>setup\<close> itself is a reserved word here).\<close>

definition setup_sketch :: "controller \<Rightarrow> controller" where
  "setup_sketch s = s\<lparr>counter8s := 0, SpotGPSState := Power_Off, q8SecondBlocks := 1\<rparr>"

text \<open>
  The \<open>while\<close> loop of \<open>Spot_Turn_On\<close>.  It has no bound: a run that never reads HIGH
  does not return, which is the value \<open>None\<close>.
\<close>

partial_function (option) Spot_Turn_On_wait :: "controller \<Rightarrow> controller option" where
  "Spot_Turn_On_wait s =
     (case digitalRead SpotOn3VSense s of
        (v, s1) \<Rightarrow>
          if v = LOW then Spot_Turn_On_wait (wdt_reset (delay 100 s1))
          else Some s1)"

definition Spot_Turn_On :: "controller \<Rightarrow> controller option" where
  "Spot_Turn_On s0 =
     (case digitalRead SpotOn3VSense (pinMode SpotOn3VSense INPUT (enter Turn_On s0)) of
        (v, s1) \<Rightarrow>
          if v = LOW then
            map_option
              (\<lambda>s2. pinMode LED INPUT (digitalWrite LED LOW
                       (pinMode SpotOnOffButton INPUT (digitalWrite SpotOnOffButton HIGH s2))))
              (Spot_Turn_On_wait
                 (pinMode SpotOn3VSense INPUT
                   (digitalWrite LED HIGH (pinMode LED OUTPUT
                     (digitalWrite SpotOnOffButton LOW (pinMode SpotOnOffButton OUTPUT s1))))))
          else Some s1)"

text \<open>The \<open>while\<close> loop of \<open>Spot_Turn_Off\<close>, unbounded in the same way.\<close>

partial_function (option) Spot_Turn_Off_wait :: "controller \<Rightarrow> controller option" where
  "Spot_Turn_Off_wait s =
     (case digitalRead SpotOn3VSense s of
        (v, s1) \<Rightarrow>
          if v = HIGH then Spot_Turn_Off_wait (wdt_reset (delay 100 s1))
          else Some s1)"

definition Spot_Turn_Off :: "controller \<Rightarrow> controller option" where
  "Spot_Turn_Off s0 =
     (case digitalRead SpotOn3VSense (pinMode SpotOn3VSense INPUT (enter Turn_Off s0)) of
        (v, s1) \<Rightarrow>
          if v = HIGH then
            map_option
              (\<lambda>s2. pinMode LED INPUT (digitalWrite LED LOW
                       (pinMode SpotOnOffButton INPUT (digitalWrite SpotOnOffButton HIGH s2))))
              (Spot_Turn_Off_wait
                 (pinMode SpotOn3VSense INPUT
                   (digitalWrite LED HIGH (pinMode LED OUTPUT
                     (digitalWrite SpotOnOffButton LOW (pinMode SpotOnOffButton OUTPUT s1))))))
          else Some s1)"

definition Spot_Message_OK :: "controller \<Rightarrow> controller" where
  "Spot_Message_OK s0 =
     pinMode LED INPUT (digitalWrite LED LOW
       (pinMode SpotOkMsgButton INPUT (digitalWrite SpotOkMsgButton HIGH
         (delay 4000
           (digitalWrite LED HIGH (pinMode LED OUTPUT
             (digitalWrite SpotOkMsgButton LOW (pinMode SpotOkMsgButton OUTPUT
               (enter Message_OK s0)))))))))"

definition Spot_Message_Custom :: "controller \<Rightarrow> controller" where
  "Spot_Message_Custom s0 =
     pinMode LED INPUT (digitalWrite LED LOW
       (pinMode SpotCustomMsgButton INPUT (digitalWrite SpotCustomMsgButton HIGH
         (delay 4000
           (digitalWrite LED HIGH (pinMode LED OUTPUT
             (digitalWrite SpotCustomMsgButton LOW (pinMode SpotCustomMsgButton OUTPUT
               (enter Message_Custom s0)))))))))"

definition action :: "controller \<Rightarrow> controller option" where
  "action s =
     (if SpotGPSState s = Power_Off then
        map_option (\<lambda>t. t\<lparr>SpotGPSState := Power_On, q8SecondBlocks := 1\<rparr>) (Spot_Turn_On s)
      else if SpotGPSState s = Power_On then
        Some ((Spot_Message_OK s)\<lparr>SpotGPSState := Sending_Ok, q8SecondBlocks := kSpotOnTime\<rparr>)
      else if SpotGPSState s = Sending_Ok then
        map_option (\<lambda>t. t\<lparr>SpotGPSState := Power_Off_2, q8SecondBlocks := kSpotOffTime\<rparr>)
          (Spot_Turn_Off s)
      else if SpotGPSState s = Power_Off_2 then
        map_option (\<lambda>t. t\<lparr>SpotGPSState := Power_On_2, q8SecondBlocks := 1\<rparr>) (Spot_Turn_On s)
      else if SpotGPSState s = Power_On_2 then
        Some ((Spot_Message_Custom s)
                \<lparr>SpotGPSState := Sending_Custom, q8SecondBlocks := kSpotOnTime\<rparr>)
      else if SpotGPSState s = Sending_Custom then
        map_option (\<lambda>t. t\<lparr>SpotGPSState := Power_Off, q8SecondBlocks := kSpotOffTime\<rparr>)
          (Spot_Turn_Off s)
      else
        map_option (\<lambda>t. t\<lparr>SpotGPSState := Power_Off, q8SecondBlocks := kSpotOffTime\<rparr>)
          (Spot_Turn_Off s))"

definition EightSeconds :: "controller \<Rightarrow> controller option" where
  "EightSeconds s =
     (let s1 = s\<lparr>counter8s := wrap16 (counter8s s + 1)\<rparr> in
      if counter8s s1 \<ge> q8SecondBlocks s1 then action (s1\<lparr>counter8s := 0\<rparr>)
      else Some s1)"

text \<open>
  One pass of \<open>loop\<close>: \<open>EightSeconds\<close>, then the processor sleeps until the watchdog
  interrupt wakes it.  \<open>ticks n\<close> is \<open>n\<close> passes in a row.
\<close>

definition loop :: "controller \<Rightarrow> controller option" where
  "loop s = EightSeconds s"

fun ticks :: "nat \<Rightarrow> controller \<Rightarrow> controller option" where
  "ticks 0 s = Some s"
| "ticks (Suc n) s = Option.bind (loop s) (ticks n)"

section \<open>Vocabulary of the properties\<close>

text \<open>
  What \<open>k\<close> passes of a wait loop write to the log while the sense line reads \<open>v\<close>:
  a read, the 100 ms delay and the watchdog reset, \<open>k\<close> times over.
\<close>

definition poll_log :: "level \<Rightarrow> nat \<Rightarrow> io_event list" where
  "poll_log v k = concat (replicate k [DigitalRead SpotOn3VSense v, Delay 100, WdtReset])"

text \<open>
  The log of a power procedure that found the sense line at \<open>v\<close>, pressed the button and
  left its loop after \<open>k\<close> passes.
\<close>

definition power_log :: "level \<Rightarrow> nat \<Rightarrow> io_event list" where
  "power_log v k =
     [PinMode SpotOn3VSense INPUT, DigitalRead SpotOn3VSense v,
      PinMode SpotOnOffButton OUTPUT, DigitalWrite SpotOnOffButton LOW,
      PinMode LED OUTPUT, DigitalWrite LED HIGH,
      PinMode SpotOn3VSense INPUT]
     @ poll_log v k
     @ [DigitalRead SpotOn3VSense (if v = LOW then HIGH else LOW),
        DigitalWrite SpotOnOffButton HIGH, PinMode SpotOnOffButton INPUT,
        DigitalWrite LED LOW, PinMode LED INPUT]"

text \<open>The log of a message procedure on button \<open>b\<close>.\<close>

definition message_log :: "nat \<Rightarrow> io_event list" where
  "message_log b =
     [PinMode b OUTPUT, DigitalWrite b LOW,
      PinMode LED OUTPUT, DigitalWrite LED HIGH,
      Delay 4000,
      DigitalWrite b HIGH, PinMode b INPUT,
      DigitalWrite LED LOW, PinMode LED INPUT]"

text \<open>
  The controller after power procedure \<open>p\<close> pressed the button and returned (\<open>pressed\<close>),
  and after it found nothing to do (\<open>skipped\<close>).
\<close>

definition pressed :: "primitive \<Rightarrow> level \<Rightarrow> nat \<Rightarrow> controller \<Rightarrow> controller" where
  "pressed p v k s =
     s\<lparr>modes := (\<lambda>q. if q = SpotOn3VSense \<or> q = SpotOnOffButton \<or> q = LED then INPUT
                      else modes s q),
       outs := (\<lambda>q. if q = SpotOnOffButton then HIGH else if q = LED then LOW else outs s q),
       nreads := nreads s + k + 2,
       io_log := io_log s @ power_log v k,
       calls := calls s @ [p]\<rparr>"

definition skipped :: "primitive \<Rightarrow> level \<Rightarrow> controller \<Rightarrow> controller" where
  "skipped p v s =
     s\<lparr>modes := (modes s)(SpotOn3VSense := INPUT),
       nreads := nreads s + 1,
       io_log := io_log s @ [PinMode SpotOn3VSense INPUT, DigitalRead SpotOn3VSense v],
       calls := calls s @ [p]\<rparr>"

text \<open>
  A device that answers: whatever has been read so far, the sense line will read HIGH
  again and will read LOW again.
\<close>

definition responsive :: "controller \<Rightarrow> bool" where
  "responsive s \<longleftrightarrow>
     (\<forall>n. \<exists>i. sense s (n + i) = HIGH) \<and> (\<forall>n. \<exists>i. sense s (n + i) = LOW)"

definition defined_state :: "int \<Rightarrow> bool" where
  "defined_state st \<longleftrightarrow>
     st = Power_Off \<or> st = Power_On \<or> st = Sending_Ok \<or>
     st = Power_Off_2 \<or> st = Power_On_2 \<or> st = Sending_Custom"

text \<open>
  The transition table of the specification (section 4.3), written from its rows:
  the action performed in a state, the next state, and the threshold the next state
  asks for (1 tick, N ticks, M ticks).  The last row is the one for unrecognized values.
\<close>

definition table_action :: "int \<Rightarrow> primitive" where
  "table_action st =
     (if st = Power_Off then Turn_On
      else if st = Power_On then Message_OK
      else if st = Sending_Ok then Turn_Off
      else if st = Power_Off_2 then Turn_On
      else if st = Power_On_2 then Message_Custom
      else if st = Sending_Custom then Turn_Off
      else Turn_Off)"

definition table_next :: "int \<Rightarrow> int" where
  "table_next st =
     (if st = Power_Off then Power_On
      else if st = Power_On then Sending_Ok
      else if st = Sending_Ok then Power_Off_2
      else if st = Power_Off_2 then Power_On_2
      else if st = Power_On_2 then Sending_Custom
      else if st = Sending_Custom then Power_Off
      else Power_Off)"

definition table_threshold :: "int \<Rightarrow> int" where
  "table_threshold new =
     (if new = Power_On \<or> new = Power_On_2 then 1
      else if new = Sending_Ok \<or> new = Sending_Custom then kSpotOnTime
      else kSpotOffTime)"

definition perform :: "primitive \<Rightarrow> controller \<Rightarrow> controller option" where
  "perform p s =
     (case p of
        Turn_On \<Rightarrow> Spot_Turn_On s
      | Turn_Off \<Rightarrow> Spot_Turn_Off s
      | Message_OK \<Rightarrow> Some (Spot_Message_OK s)
      | Message_Custom \<Rightarrow> Some (Spot_Message_Custom s))"

text \<open>
  The timetable the sketch keeps from a cold start, ticks counted from 1: which
  procedure, if any, is entered during tick \<open>t\<close>, and the procedures entered up to and
  including tick \<open>n\<close>.
\<close>

definition due :: "nat \<Rightarrow> primitive option" where
  "due t =
     (if t mod 198 = 1 then Some Turn_On
      else if t mod 198 = 2 then Some Message_OK
      else if t mod 198 = 40 then Some Turn_Off
      else if t mod 198 = 100 then Some Turn_On
      else if t mod 198 = 101 then Some Message_Custom
      else if t mod 198 = 139 then Some Turn_Off
      else None)"

fun fired :: "nat \<Rightarrow> primitive list" where
  "fired 0 = []"
| "fired (Suc n) = fired n @ (case due (Suc n) of None \<Rightarrow> [] | Some p \<Rightarrow> [p])"

text \<open>State and ticks left before the next action, after \<open>n\<close> ticks with \<open>r = n mod 198\<close>.\<close>

definition state_at :: "nat \<Rightarrow> int" where
  "state_at r =
     (if r = 0 then Power_Off
      else if r = 1 then Power_On
      else if r < 40 then Sending_Ok
      else if r < 100 then Power_Off_2
      else if r = 100 then Power_On_2
      else if r < 139 then Sending_Custom
      else Power_Off)"

definition remaining :: "nat \<Rightarrow> int" where
  "remaining r =
     (if r = 0 then 1
      else if r = 1 then 1
      else if r < 40 then 40 - int r
      else if r < 100 then 100 - int r
      else if r = 100 then 1
      else if r < 139 then 139 - int r
      else 199 - int r)"

definition on_schedule :: "nat \<Rightarrow> controller \<Rightarrow> bool" where
  "on_schedule n t \<longleftrightarrow>
     SpotGPSState t = state_at (n mod 198) \<and>
     0 \<le> counter8s t \<and>
     q8SecondBlocks t - counter8s t = remaining (n mod 198) \<and>
     q8SecondBlocks t = (if n = 0 then 1 else table_threshold (state_at (n mod 198)))"

text \<open>
  A board on the bench: the device answers at the first poll, so the sense line reads
  LOW, HIGH (power-on), HIGH, LOW (power-off), and so on.
\<close>

definition bench :: controller where
  "bench =
     \<lparr>counter8s = 0, SpotGPSState = 0, q8SecondBlocks = 0,
      modes = (\<lambda>p. INPUT), outs = (\<lambda>p. LOW),
      sense = (\<lambda>i. if i mod 4 = 1 \<or> i mod 4 = 2 then HIGH else LOW),
      nreads = 0, io_log = [], calls = []\<rparr>"

text \<open>Whether a logged call is a call on pin \<open>p\<close>.\<close>

fun on_pin :: "nat \<Rightarrow> io_event \<Rightarrow> bool" where
  "on_pin p (PinMode q m) = (q = p)"
| "on_pin p (DigitalWrite q v) = (q = p)"
| "on_pin p (DigitalRead q v) = (q = p)"
| "on_pin p (Delay ms) = False"
| "on_pin p WdtReset = False"

text \<open>One indicator pulse: the LED is driven, lit, put out and let go.\<close>

definition led_pulse :: "io_event list" where
  "led_pulse = [PinMode LED OUTPUT, DigitalWrite LED HIGH, DigitalWrite LED LOW, PinMode LED INPUT]"

text \<open>
  Two more boards: on \<open>slow\<close> the device is off and answers the power button at the
  fourth reading; on \<open>stuck\<close> it is on and lets go at the fourth reading.
\<close>

definition slow :: controller where
  "slow = bench\<lparr>sense := (\<lambda>i. if i < 3 then LOW else HIGH)\<rparr>"

definition stuck :: controller where
  "stuck = bench\<lparr>sense := (\<lambda>i. if i < 3 then HIGH else LOW)\<rparr>"

text \<open>A board whose state variable holds a value outside the enumeration.\<close>

definition corrupt :: controller where
  "corrupt = stuck\<lparr>SpotGPSState := 7\<rparr>"

text \<open>What holds of the tick counter between two passes of \<open>loop\<close>.\<close>

definition tick_inv :: "controller \<Rightarrow> bool" where
  "tick_inv t \<longleftrightarrow>
     0 \<le> counter8s t \<and> counter8s t < q8SecondBlocks t \<and> q8SecondBlocks t \<le> 60"


section \<open>Auxiliary facts\<close>

lemmas io_defs = pinMode_def digitalWrite_def digitalRead_def delay_def wdt_reset_def enter_def

lemmas pin_defs = LED_def SpotOnOffButton_def SpotOn3VSense_def SpotOkMsgButton_def
  SpotCustomMsgButton_def

lemma poll_log_Suc:
  "poll_log v (Suc k) = [DigitalRead SpotOn3VSense v, Delay 100, WdtReset] @ poll_log v k"
  by (simp add: poll_log_def)

lemma poll_log_0: "poll_log v 0 = []"
  by (simp add: poll_log_def)

lemma level_not_LOW: "v \<noteq> LOW \<longleftrightarrow> v = HIGH"
  by (cases v) simp_all

lemma level_not_HIGH: "v \<noteq> HIGH \<longleftrightarrow> v = LOW"
  by (cases v) simp_all

lemma first_level:
  fixes f :: "nat \<Rightarrow> level"
  assumes "\<exists>i. f i = v"
  shows "\<exists>k. f k = v \<and> (\<forall>i<k. f i \<noteq> v)"
proof -
  from assms obtain i where "f i = v" by blast
  then have "f (LEAST j. f j = v) = v" by (rule LeastI)
  moreover have "\<forall>i<(LEAST j. f j = v). f i \<noteq> v"
    using not_less_Least by blast
  ultimately show ?thesis by blast
qed

subsection \<open>The wait loop of \<open>Spot_Turn_On\<close>\<close>

lemma Spot_Turn_On_wait_iterate:
  "(\<And>i. i < k \<Longrightarrow> sense s (nreads s + i) = LOW) \<Longrightarrow>
   Spot_Turn_On_wait s =
   Spot_Turn_On_wait (s\<lparr>nreads := nreads s + k, io_log := io_log s @ poll_log LOW k\<rparr>)"
proof (induction k arbitrary: s)
  case 0
  show ?case by (simp add: poll_log_0)
next
  case (Suc k)
  let ?s1 = "wdt_reset (delay 100 (snd (digitalRead SpotOn3VSense s)))"
  have first: "sense s (nreads s) = LOW" using Suc.prems [of 0] by simp
  have step: "Spot_Turn_On_wait s = Spot_Turn_On_wait ?s1"
    by (subst Spot_Turn_On_wait.simps) (simp add: digitalRead_def first)
  have "\<And>i. i < k \<Longrightarrow> sense ?s1 (nreads ?s1 + i) = LOW"
    using Suc.prems [of "Suc i" for i] by (simp add: io_defs)
  then have "Spot_Turn_On_wait ?s1 =
    Spot_Turn_On_wait (?s1\<lparr>nreads := nreads ?s1 + k, io_log := io_log ?s1 @ poll_log LOW k\<rparr>)"
    by (rule Suc.IH)
  also have "?s1\<lparr>nreads := nreads ?s1 + k, io_log := io_log ?s1 @ poll_log LOW k\<rparr> =
    s\<lparr>nreads := nreads s + Suc k, io_log := io_log s @ poll_log LOW (Suc k)\<rparr>"
    by (simp add: io_defs first poll_log_Suc)
  finally show ?case using step by simp
qed

lemma Spot_Turn_On_wait_exit:
  "sense s (nreads s) = HIGH \<Longrightarrow>
   Spot_Turn_On_wait s =
   Some (s\<lparr>nreads := nreads s + 1, io_log := io_log s @ [DigitalRead SpotOn3VSense HIGH]\<rparr>)"
  by (subst Spot_Turn_On_wait.simps) (simp add: digitalRead_def)

lemma Spot_Turn_On_wait_returns:
  assumes low: "\<And>i. i < k \<Longrightarrow> sense s (nreads s + i) = LOW"
    and high: "sense s (nreads s + k) = HIGH"
  shows "Spot_Turn_On_wait s =
    Some (s\<lparr>nreads := nreads s + k + 1,
            io_log := io_log s @ poll_log LOW k @ [DigitalRead SpotOn3VSense HIGH]\<rparr>)"
proof -
  let ?sk = "s\<lparr>nreads := nreads s + k, io_log := io_log s @ poll_log LOW k\<rparr>"
  have "Spot_Turn_On_wait s = Spot_Turn_On_wait ?sk"
    using low by (rule Spot_Turn_On_wait_iterate)
  also have "\<dots> = Some (?sk\<lparr>nreads := nreads ?sk + 1,
                             io_log := io_log ?sk @ [DigitalRead SpotOn3VSense HIGH]\<rparr>)"
    by (rule Spot_Turn_On_wait_exit) (simp add: high)
  finally show ?thesis by simp
qed

lemma Spot_Turn_On_wait_Some_high:
  assumes ret: "Spot_Turn_On_wait s = Some t"
  shows "\<exists>i. sense s (nreads s + i) = HIGH"
proof (rule Spot_Turn_On_wait.raw_induct
         [where P = "\<lambda>s t. \<exists>i. sense s (nreads s + i) = HIGH", OF _ ret])
  fix f s t
  assume IH: "\<And>x y. f x = Some y \<Longrightarrow> \<exists>i. sense x (nreads x + i) = HIGH"
    and eq: "(case digitalRead SpotOn3VSense s of
               (v, s1) \<Rightarrow> if v = LOW then f (wdt_reset (delay 100 s1)) else Some s1) = Some t"
  show "\<exists>i. sense s (nreads s + i) = HIGH"
  proof (cases "sense s (nreads s)")
    case HIGH
    then have "sense s (nreads s + 0) = HIGH" by simp
    then show ?thesis by blast
  next
    case LOW
    with eq have "f (wdt_reset (delay 100 (snd (digitalRead SpotOn3VSense s)))) = Some t"
      by (simp add: digitalRead_def)
    from IH [OF this] obtain i where "sense s (nreads s + Suc i) = HIGH"
      by (auto simp: io_defs)
    then show ?thesis by blast
  qed
qed

lemma Spot_Turn_On_wait_cases:
  "(\<exists>k. (\<forall>i<k. sense s (nreads s + i) = LOW) \<and> sense s (nreads s + k) = HIGH \<and>
        Spot_Turn_On_wait s =
          Some (s\<lparr>nreads := nreads s + k + 1,
                  io_log := io_log s @ poll_log LOW k @ [DigitalRead SpotOn3VSense HIGH]\<rparr>))
   \<or> ((\<forall>i. sense s (nreads s + i) = LOW) \<and> Spot_Turn_On_wait s = None)"
proof (cases "\<exists>i. sense s (nreads s + i) = HIGH")
  case True
  from first_level [OF True] obtain k
    where k: "sense s (nreads s + k) = HIGH" "\<forall>i<k. sense s (nreads s + i) \<noteq> HIGH"
    by blast
  from k(2) have low: "\<forall>i<k. sense s (nreads s + i) = LOW"
    by (simp add: level_not_HIGH)
  then have "Spot_Turn_On_wait s =
    Some (s\<lparr>nreads := nreads s + k + 1,
            io_log := io_log s @ poll_log LOW k @ [DigitalRead SpotOn3VSense HIGH]\<rparr>)"
    using k(1) by (intro Spot_Turn_On_wait_returns) auto
  with low k(1) show ?thesis by blast
next
  case False
  then have low: "\<forall>i. sense s (nreads s + i) = LOW"
    by (simp add: level_not_HIGH)
  have "Spot_Turn_On_wait s = None"
  proof (cases "Spot_Turn_On_wait s")
    case (Some t)
    from Spot_Turn_On_wait_Some_high [OF this] False show ?thesis by blast
  qed simp
  with low show ?thesis by blast
qed

lemma Spot_Turn_On_skipped:
  "sense s (nreads s) = HIGH \<Longrightarrow> Spot_Turn_On s = Some (skipped Turn_On HIGH s)"
  by (simp add: Spot_Turn_On_def skipped_def io_defs)

lemma Spot_Turn_On_pressed:
  assumes first: "sense s (nreads s) = LOW"
    and low: "\<And>i. i < k \<Longrightarrow> sense s (nreads s + 1 + i) = LOW"
    and high: "sense s (nreads s + 1 + k) = HIGH"
  shows "Spot_Turn_On s = Some (pressed Turn_On LOW k s)"
proof -
  let ?s1 = "pinMode SpotOn3VSense INPUT
               (digitalWrite LED HIGH (pinMode LED OUTPUT
                 (digitalWrite SpotOnOffButton LOW (pinMode SpotOnOffButton OUTPUT
                   (snd (digitalRead SpotOn3VSense
                          (pinMode SpotOn3VSense INPUT (enter Turn_On s))))))))"
  have s1: "sense ?s1 = sense s" "nreads ?s1 = nreads s + 1"
    by (simp_all add: io_defs)
  have "Spot_Turn_On_wait ?s1 =
    Some (?s1\<lparr>nreads := nreads ?s1 + k + 1,
              io_log := io_log ?s1 @ poll_log LOW k @ [DigitalRead SpotOn3VSense HIGH]\<rparr>)"
    using low high by (intro Spot_Turn_On_wait_returns) (simp_all add: s1)
  then show ?thesis
    by (simp add: Spot_Turn_On_def io_defs first pressed_def power_log_def pin_defs fun_eq_iff)
qed

lemma Spot_Turn_On_blocked:
  assumes low: "\<And>i. sense s (nreads s + i) = LOW"
  shows "Spot_Turn_On s = None"
proof -
  let ?s1 = "pinMode SpotOn3VSense INPUT
               (digitalWrite LED HIGH (pinMode LED OUTPUT
                 (digitalWrite SpotOnOffButton LOW (pinMode SpotOnOffButton OUTPUT
                   (snd (digitalRead SpotOn3VSense
                          (pinMode SpotOn3VSense INPUT (enter Turn_On s))))))))"
  have first: "sense s (nreads s) = LOW" using low [of 0] by simp
  have "\<And>i. sense ?s1 (nreads ?s1 + i) = LOW"
    using low [of "Suc i" for i] by (simp add: io_defs)
  with Spot_Turn_On_wait_cases [of ?s1] have "Spot_Turn_On_wait ?s1 = None"
    by (metis level.distinct(1))
  then show ?thesis
    by (simp add: Spot_Turn_On_def io_defs first)
qed

lemma Spot_Turn_On_cases:
  "(sense s (nreads s) = HIGH \<and> Spot_Turn_On s = Some (skipped Turn_On HIGH s))
   \<or> (\<exists>k. sense s (nreads s) = LOW \<and> (\<forall>i<k. sense s (nreads s + 1 + i) = LOW) \<and>
           sense s (nreads s + 1 + k) = HIGH \<and>
           Spot_Turn_On s = Some (pressed Turn_On LOW k s))
   \<or> ((\<forall>i. sense s (nreads s + i) = LOW) \<and> Spot_Turn_On s = None)"
proof (cases "sense s (nreads s)")
  case HIGH
  then show ?thesis by (simp add: Spot_Turn_On_skipped)
next
  case LOW
  show ?thesis
  proof (cases "\<exists>i. sense s (nreads s + 1 + i) = HIGH")
    case True
    from first_level [of "\<lambda>i. sense s (nreads s + 1 + i)" HIGH, OF True] obtain k
      where k: "sense s (nreads s + 1 + k) = HIGH" "\<forall>i<k. sense s (nreads s + 1 + i) \<noteq> HIGH"
      by blast
    from k(2) have low: "\<forall>i<k. sense s (nreads s + 1 + i) = LOW"
      by (simp add: level_not_HIGH)
    then have "Spot_Turn_On s = Some (pressed Turn_On LOW k s)"
      using LOW k(1) by (intro Spot_Turn_On_pressed) auto
    with LOW low k(1) show ?thesis by blast
  next
    case False
    then have later: "\<forall>i. sense s (nreads s + 1 + i) = LOW"
      by (simp add: level_not_HIGH)
    have all: "sense s (nreads s + i) = LOW" for i
    proof (cases i)
      case 0
      with LOW show ?thesis by simp
    next
      case (Suc j)
      with later show ?thesis by simp
    qed
    then have "Spot_Turn_On s = None" by (rule Spot_Turn_On_blocked)
    with all show ?thesis by blast
  qed
qed

subsection \<open>The wait loop of \<open>Spot_Turn_Off\<close>\<close>

lemma Spot_Turn_Off_wait_iterate:
  "(\<And>i. i < k \<Longrightarrow> sense s (nreads s + i) = HIGH) \<Longrightarrow>
   Spot_Turn_Off_wait s =
   Spot_Turn_Off_wait (s\<lparr>nreads := nreads s + k, io_log := io_log s @ poll_log HIGH k\<rparr>)"
proof (induction k arbitrary: s)
  case 0
  show ?case by (simp add: poll_log_0)
next
  case (Suc k)
  let ?s1 = "wdt_reset (delay 100 (snd (digitalRead SpotOn3VSense s)))"
  have first: "sense s (nreads s) = HIGH" using Suc.prems [of 0] by simp
  have step: "Spot_Turn_Off_wait s = Spot_Turn_Off_wait ?s1"
    by (subst Spot_Turn_Off_wait.simps) (simp add: digitalRead_def first)
  have "\<And>i. i < k \<Longrightarrow> sense ?s1 (nreads ?s1 + i) = HIGH"
    using Suc.prems [of "Suc i" for i] by (simp add: io_defs)
  then have "Spot_Turn_Off_wait ?s1 =
    Spot_Turn_Off_wait (?s1\<lparr>nreads := nreads ?s1 + k, io_log := io_log ?s1 @ poll_log HIGH k\<rparr>)"
    by (rule Suc.IH)
  also have "?s1\<lparr>nreads := nreads ?s1 + k, io_log := io_log ?s1 @ poll_log HIGH k\<rparr> =
    s\<lparr>nreads := nreads s + Suc k, io_log := io_log s @ poll_log HIGH (Suc k)\<rparr>"
    by (simp add: io_defs first poll_log_Suc)
  finally show ?case using step by simp
qed

lemma Spot_Turn_Off_wait_exit:
  "sense s (nreads s) = LOW \<Longrightarrow>
   Spot_Turn_Off_wait s =
   Some (s\<lparr>nreads := nreads s + 1, io_log := io_log s @ [DigitalRead SpotOn3VSense LOW]\<rparr>)"
  by (subst Spot_Turn_Off_wait.simps) (simp add: digitalRead_def)

lemma Spot_Turn_Off_wait_returns:
  assumes low: "\<And>i. i < k \<Longrightarrow> sense s (nreads s + i) = HIGH"
    and high: "sense s (nreads s + k) = LOW"
  shows "Spot_Turn_Off_wait s =
    Some (s\<lparr>nreads := nreads s + k + 1,
            io_log := io_log s @ poll_log HIGH k @ [DigitalRead SpotOn3VSense LOW]\<rparr>)"
proof -
  let ?sk = "s\<lparr>nreads := nreads s + k, io_log := io_log s @ poll_log HIGH k\<rparr>"
  have "Spot_Turn_Off_wait s = Spot_Turn_Off_wait ?sk"
    using low by (rule Spot_Turn_Off_wait_iterate)
  also have "\<dots> = Some (?sk\<lparr>nreads := nreads ?sk + 1,
                             io_log := io_log ?sk @ [DigitalRead SpotOn3VSense LOW]\<rparr>)"
    by (rule Spot_Turn_Off_wait_exit) (simp add: high)
  finally show ?thesis by simp
qed

lemma Spot_Turn_Off_wait_Some_high:
  assumes ret: "Spot_Turn_Off_wait s = Some t"
  shows "\<exists>i. sense s (nreads s + i) = LOW"
proof (rule Spot_Turn_Off_wait.raw_induct
         [where P = "\<lambda>s t. \<exists>i. sense s (nreads s + i) = LOW", OF _ ret])
  fix f s t
  assume IH: "\<And>x y. f x = Some y \<Longrightarrow> \<exists>i. sense x (nreads x + i) = LOW"
    and eq: "(case digitalRead SpotOn3VSense s of
               (v, s1) \<Rightarrow> if v = HIGH then f (wdt_reset (delay 100 s1)) else Some s1) = Some t"
  show "\<exists>i. sense s (nreads s + i) = LOW"
  proof (cases "sense s (nreads s)")
    case LOW
    then have "sense s (nreads s + 0) = LOW" by simp
    then show ?thesis by blast
  next
    case HIGH
    with eq have "f (wdt_reset (delay 100 (snd (digitalRead SpotOn3VSense s)))) = Some t"
      by (simp add: digitalRead_def)
    from IH [OF this] obtain i where "sense s (nreads s + Suc i) = LOW"
      by (auto simp: io_defs)
    then show ?thesis by blast
  qed
qed

lemma Spot_Turn_Off_wait_cases:
  "(\<exists>k. (\<forall>i<k. sense s (nreads s + i) = HIGH) \<and> sense s (nreads s + k) = LOW \<and>
        Spot_Turn_Off_wait s =
          Some (s\<lparr>nreads := nreads s + k + 1,
                  io_log := io_log s @ poll_log HIGH k @ [DigitalRead SpotOn3VSense LOW]\<rparr>))
   \<or> ((\<forall>i. sense s (nreads s + i) = HIGH) \<and> Spot_Turn_Off_wait s = None)"
proof (cases "\<exists>i. sense s (nreads s + i) = LOW")
  case True
  from first_level [OF True] obtain k
    where k: "sense s (nreads s + k) = LOW" "\<forall>i<k. sense s (nreads s + i) \<noteq> LOW"
    by blast
  from k(2) have low: "\<forall>i<k. sense s (nreads s + i) = HIGH"
    by (simp add: level_not_LOW)
  then have "Spot_Turn_Off_wait s =
    Some (s\<lparr>nreads := nreads s + k + 1,
            io_log := io_log s @ poll_log HIGH k @ [DigitalRead SpotOn3VSense LOW]\<rparr>)"
    using k(1) by (intro Spot_Turn_Off_wait_returns) auto
  with low k(1) show ?thesis by blast
next
  case False
  then have low: "\<forall>i. sense s (nreads s + i) = HIGH"
    by (simp add: level_not_LOW)
  have "Spot_Turn_Off_wait s = None"
  proof (cases "Spot_Turn_Off_wait s")
    case (Some t)
    from Spot_Turn_Off_wait_Some_high [OF this] False show ?thesis by blast
  qed simp
  with low show ?thesis by blast
qed

lemma Spot_Turn_Off_skipped:
  "sense s (nreads s) = LOW \<Longrightarrow> Spot_Turn_Off s = Some (skipped Turn_Off LOW s)"
  by (simp add: Spot_Turn_Off_def skipped_def io_defs)

lemma Spot_Turn_Off_pressed:
  assumes first: "sense s (nreads s) = HIGH"
    and low: "\<And>i. i < k \<Longrightarrow> sense s (nreads s + 1 + i) = HIGH"
    and high: "sense s (nreads s + 1 + k) = LOW"
  shows "Spot_Turn_Off s = Some (pressed Turn_Off HIGH k s)"
proof -
  let ?s1 = "pinMode SpotOn3VSense INPUT
               (digitalWrite LED HIGH (pinMode LED OUTPUT
                 (digitalWrite SpotOnOffButton LOW (pinMode SpotOnOffButton OUTPUT
                   (snd (digitalRead SpotOn3VSense
                          (pinMode SpotOn3VSense INPUT (enter Turn_Off s))))))))"
  have s1: "sense ?s1 = sense s" "nreads ?s1 = nreads s + 1"
    by (simp_all add: io_defs)
  have "Spot_Turn_Off_wait ?s1 =
    Some (?s1\<lparr>nreads := nreads ?s1 + k + 1,
              io_log := io_log ?s1 @ poll_log HIGH k @ [DigitalRead SpotOn3VSense LOW]\<rparr>)"
    using low high by (intro Spot_Turn_Off_wait_returns) (simp_all add: s1)
  then show ?thesis
    by (simp add: Spot_Turn_Off_def io_defs first pressed_def power_log_def pin_defs fun_eq_iff)
qed

lemma Spot_Turn_Off_blocked:
  assumes low: "\<And>i. sense s (nreads s + i) = HIGH"
  shows "Spot_Turn_Off s = None"
proof -
  let ?s1 = "pinMode SpotOn3VSense INPUT
               (digitalWrite LED HIGH (pinMode LED OUTPUT
                 (digitalWrite SpotOnOffButton LOW (pinMode SpotOnOffButton OUTPUT
                   (snd (digitalRead SpotOn3VSense
                          (pinMode SpotOn3VSense INPUT (enter Turn_Off s))))))))"
  have first: "sense s (nreads s) = HIGH" using low [of 0] by simp
  have "\<And>i. sense ?s1 (nreads ?s1 + i) = HIGH"
    using low [of "Suc i" for i] by (simp add: io_defs)
  with Spot_Turn_Off_wait_cases [of ?s1] have "Spot_Turn_Off_wait ?s1 = None"
    by (metis level.distinct(1))
  then show ?thesis
    by (simp add: Spot_Turn_Off_def io_defs first)
qed

lemma Spot_Turn_Off_cases:
  "(sense s (nreads s) = LOW \<and> Spot_Turn_Off s = Some (skipped Turn_Off LOW s))
   \<or> (\<exists>k. sense s (nreads s) = HIGH \<and> (\<forall>i<k. sense s (nreads s + 1 + i) = HIGH) \<and>
           sense s (nreads s + 1 + k) = LOW \<and>
           Spot_Turn_Off s = Some (pressed Turn_Off HIGH k s))
   \<or> ((\<forall>i. sense s (nreads s + i) = HIGH) \<and> Spot_Turn_Off s = None)"
proof (cases "sense s (nreads s)")
  case LOW
  then show ?thesis by (simp add: Spot_Turn_Off_skipped)
next
  case HIGH
  show ?thesis
  proof (cases "\<exists>i. sense s (nreads s + 1 + i) = LOW")
    case True
    from first_level [of "\<lambda>i. sense s (nreads s + 1 + i)" LOW, OF True] obtain k
      where k: "sense s (nreads s + 1 + k) = LOW" "\<forall>i<k. sense s (nreads s + 1 + i) \<noteq> LOW"
      by blast
    from k(2) have low: "\<forall>i<k. sense s (nreads s + 1 + i) = HIGH"
      by (simp add: level_not_LOW)
    then have "Spot_Turn_Off s = Some (pressed Turn_Off HIGH k s)"
      using HIGH k(1) by (intro Spot_Turn_Off_pressed) auto
    with HIGH low k(1) show ?thesis by blast
  next
    case False
    then have later: "\<forall>i. sense s (nreads s + 1 + i) = HIGH"
      by (simp add: level_not_LOW)
    have all: "sense s (nreads s + i) = HIGH" for i
    proof (cases i)
      case 0
      with HIGH show ?thesis by simp
    next
      case (Suc j)
      with later show ?thesis by simp
    qed
    then have "Spot_Turn_Off s = None" by (rule Spot_Turn_Off_blocked)
    with all show ?thesis by blast
  qed
qed

subsection \<open>What a returned power procedure did\<close>

lemma Spot_Turn_On_Some:
  assumes "Spot_Turn_On s = Some t"
  shows "(sense s (nreads s) = HIGH \<and> t = skipped Turn_On HIGH s)
    \<or> (\<exists>k. sense s (nreads s) = LOW \<and> (\<forall>i<k. sense s (nreads s + 1 + i) = LOW) \<and>
           sense s (nreads s + 1 + k) = HIGH \<and> t = pressed Turn_On LOW k s)"
  using Spot_Turn_On_cases [of s] assms by auto

lemma Spot_Turn_Off_Some:
  assumes "Spot_Turn_Off s = Some t"
  shows "(sense s (nreads s) = LOW \<and> t = skipped Turn_Off LOW s)
    \<or> (\<exists>k. sense s (nreads s) = HIGH \<and> (\<forall>i<k. sense s (nreads s + 1 + i) = HIGH) \<and>
           sense s (nreads s + 1 + k) = LOW \<and> t = pressed Turn_Off HIGH k s)"
  using Spot_Turn_Off_cases [of s] assms by auto

lemma slow_on: "Spot_Turn_On slow = Some (pressed Turn_On LOW 2 slow)"
  by (rule Spot_Turn_On_pressed) (simp_all add: slow_def bench_def)

lemma stuck_off: "Spot_Turn_Off stuck = Some (pressed Turn_Off HIGH 2 stuck)"
  by (rule Spot_Turn_Off_pressed) (simp_all add: stuck_def bench_def)

lemma filter_poll_log:
  "filter P (poll_log v k) =
   concat (replicate k (filter P [DigitalRead SpotOn3VSense v, Delay 100, WdtReset]))"
  by (induction k) (simp_all add: poll_log_def)

lemma Spot_Turn_On_wait_Some:
  assumes "Spot_Turn_On_wait s = Some t"
  shows "\<exists>k. t = s\<lparr>nreads := nreads s + k + 1,
                   io_log := io_log s @ poll_log LOW k @ [DigitalRead SpotOn3VSense HIGH]\<rparr>"
  using Spot_Turn_On_wait_cases [of s] assms by auto

lemma Spot_Turn_Off_wait_Some:
  assumes "Spot_Turn_Off_wait s = Some t"
  shows "\<exists>k. t = s\<lparr>nreads := nreads s + k + 1,
                   io_log := io_log s @ poll_log HIGH k @ [DigitalRead SpotOn3VSense LOW]\<rparr>"
  using Spot_Turn_Off_wait_cases [of s] assms by auto

subsection \<open>Logs of the message procedures and the LED\<close>

lemma led_power_log: "filter (on_pin LED) (power_log v k) = led_pulse"
  by (simp add: power_log_def filter_poll_log led_pulse_def pin_defs)

lemma led_message_log: "b \<noteq> LED \<Longrightarrow> filter (on_pin LED) (message_log b) = led_pulse"
  by (simp add: message_log_def led_pulse_def)

lemma io_log_Spot_Message_OK:
  "io_log (Spot_Message_OK s) = io_log s @ message_log SpotOkMsgButton"
  by (simp add: Spot_Message_OK_def message_log_def io_defs)

lemma io_log_Spot_Message_Custom:
  "io_log (Spot_Message_Custom s) = io_log s @ message_log SpotCustomMsgButton"
  by (simp add: Spot_Message_Custom_def message_log_def io_defs)

subsection \<open>The state machine step\<close>

lemmas state_defs = Power_Off_def Power_On_def Sending_Ok_def Power_Off_2_def Power_On_2_def
  Sending_Custom_def

lemma Spot_Turn_On_frame:
  assumes "Spot_Turn_On s = Some t"
  shows "calls t = calls s @ [Turn_On] \<and> counter8s t = counter8s s \<and>
    SpotGPSState t = SpotGPSState s \<and> q8SecondBlocks t = q8SecondBlocks s \<and> sense t = sense s"
  using Spot_Turn_On_Some [OF assms] by (auto simp: pressed_def skipped_def)

lemma Spot_Turn_Off_frame:
  assumes "Spot_Turn_Off s = Some t"
  shows "calls t = calls s @ [Turn_Off] \<and> counter8s t = counter8s s \<and>
    SpotGPSState t = SpotGPSState s \<and> q8SecondBlocks t = q8SecondBlocks s \<and> sense t = sense s"
  using Spot_Turn_Off_Some [OF assms] by (auto simp: pressed_def skipped_def)

lemma Spot_Message_OK_frame:
  "calls (Spot_Message_OK s) = calls s @ [Message_OK] \<and>
   counter8s (Spot_Message_OK s) = counter8s s \<and>
   SpotGPSState (Spot_Message_OK s) = SpotGPSState s \<and>
   q8SecondBlocks (Spot_Message_OK s) = q8SecondBlocks s \<and>
   sense (Spot_Message_OK s) = sense s"
  by (simp add: Spot_Message_OK_def io_defs)

lemma Spot_Message_Custom_frame:
  "calls (Spot_Message_Custom s) = calls s @ [Message_Custom] \<and>
   counter8s (Spot_Message_Custom s) = counter8s s \<and>
   SpotGPSState (Spot_Message_Custom s) = SpotGPSState s \<and>
   q8SecondBlocks (Spot_Message_Custom s) = q8SecondBlocks s \<and>
   sense (Spot_Message_Custom s) = sense s"
  by (simp add: Spot_Message_Custom_def io_defs)

lemma perform_frame:
  assumes "perform p s = Some t"
  shows "calls t = calls s @ [p] \<and> counter8s t = counter8s s \<and>
    SpotGPSState t = SpotGPSState s \<and> q8SecondBlocks t = q8SecondBlocks s \<and> sense t = sense s"
proof (cases p)
  case Turn_On
  with assms Spot_Turn_On_frame [of s t] show ?thesis by (simp add: perform_def)
next
  case Turn_Off
  with assms Spot_Turn_Off_frame [of s t] show ?thesis by (simp add: perform_def)
next
  case Message_OK
  with assms Spot_Message_OK_frame [of s] show ?thesis by (auto simp: perform_def)
next
  case Message_Custom
  with assms Spot_Message_Custom_frame [of s] show ?thesis by (auto simp: perform_def)
qed

lemma Spot_Turn_On_returns_iff:
  "(\<exists>t. Spot_Turn_On s = Some t) \<longleftrightarrow> (\<exists>i. sense s (nreads s + i) = HIGH)"
proof
  assume "\<exists>t. Spot_Turn_On s = Some t"
  then obtain t where "Spot_Turn_On s = Some t" ..
  from Spot_Turn_On_Some [OF this]
  have "sense s (nreads s + 0) = HIGH \<or> (\<exists>k. sense s (nreads s + (1 + k)) = HIGH)"
    by (auto simp: add.assoc)
  then show "\<exists>i. sense s (nreads s + i) = HIGH" by blast
next
  assume "\<exists>i. sense s (nreads s + i) = HIGH"
  then have "\<not> (\<forall>i. sense s (nreads s + i) = LOW)" by (auto simp: level_not_LOW)
  with Spot_Turn_On_cases [of s] show "\<exists>t. Spot_Turn_On s = Some t" by blast
qed

lemma Spot_Turn_Off_returns_iff:
  "(\<exists>t. Spot_Turn_Off s = Some t) \<longleftrightarrow> (\<exists>i. sense s (nreads s + i) = LOW)"
proof
  assume "\<exists>t. Spot_Turn_Off s = Some t"
  then obtain t where "Spot_Turn_Off s = Some t" ..
  from Spot_Turn_Off_Some [OF this]
  have "sense s (nreads s + 0) = LOW \<or> (\<exists>k. sense s (nreads s + (1 + k)) = LOW)"
    by (auto simp: add.assoc)
  then show "\<exists>i. sense s (nreads s + i) = LOW" by blast
next
  assume "\<exists>i. sense s (nreads s + i) = LOW"
  then have "\<not> (\<forall>i. sense s (nreads s + i) = HIGH)" by (auto simp: level_not_HIGH)
  with Spot_Turn_Off_cases [of s] show "\<exists>t. Spot_Turn_Off s = Some t" by blast
qed

lemma action_table:
  "action s =
     map_option (\<lambda>t. t\<lparr>SpotGPSState := table_next (SpotGPSState s),
                       q8SecondBlocks := table_threshold (table_next (SpotGPSState s))\<rparr>)
       (perform (table_action (SpotGPSState s)) s)"
proof -
  consider "SpotGPSState s = Power_Off" | "SpotGPSState s = Power_On"
    | "SpotGPSState s = Sending_Ok" | "SpotGPSState s = Power_Off_2"
    | "SpotGPSState s = Power_On_2" | "SpotGPSState s = Sending_Custom"
    | "\<not> defined_state (SpotGPSState s)"
    unfolding defined_state_def by blast
  then show ?thesis
  proof cases
    case 1
    then show ?thesis
      by (simp add: action_def table_next_def table_threshold_def table_action_def perform_def
          state_defs)
  next
    case 2
    then show ?thesis
      by (simp add: action_def table_next_def table_threshold_def table_action_def perform_def
          state_defs)
  next
    case 3
    then show ?thesis
      by (simp add: action_def table_next_def table_threshold_def table_action_def perform_def
          state_defs)
  next
    case 4
    then show ?thesis
      by (simp add: action_def table_next_def table_threshold_def table_action_def perform_def
          state_defs)
  next
    case 5
    then show ?thesis
      by (simp add: action_def table_next_def table_threshold_def table_action_def perform_def
          state_defs)
  next
    case 6
    then show ?thesis
      by (simp add: action_def table_next_def table_threshold_def table_action_def perform_def
          state_defs)
  next
    case 7
    then show ?thesis
      by (simp add: action_def table_next_def table_threshold_def table_action_def perform_def
          defined_state_def state_defs)
  qed
qed

lemma action_frame:
  assumes "action s = Some t"
  shows "calls t = calls s @ [table_action (SpotGPSState s)] \<and>
    SpotGPSState t = table_next (SpotGPSState s) \<and>
    q8SecondBlocks t = table_threshold (table_next (SpotGPSState s)) \<and>
    counter8s t = counter8s s \<and> sense t = sense s"
proof -
  from assms obtain u where u: "perform (table_action (SpotGPSState s)) s = Some u"
    and t: "t = u\<lparr>SpotGPSState := table_next (SpotGPSState s),
                  q8SecondBlocks := table_threshold (table_next (SpotGPSState s))\<rparr>"
    by (auto simp: action_table)
  from perform_frame [OF u] t show ?thesis by simp
qed

subsection \<open>Ticks\<close>

lemma wrap16_id: "- 32768 \<le> x \<Longrightarrow> x < 32768 \<Longrightarrow> wrap16 x = x"
  by (simp add: wrap16_def)

lemma EightSeconds_eq:
  "EightSeconds s =
     (if q8SecondBlocks s \<le> wrap16 (counter8s s + 1) then action (s\<lparr>counter8s := 0\<rparr>)
      else Some (s\<lparr>counter8s := wrap16 (counter8s s + 1)\<rparr>))"
  by (simp add: EightSeconds_def Let_def)

lemma perform_responsive:
  assumes "responsive s"
  shows "\<exists>t. perform p s = Some t"
proof (cases p)
  case Turn_On
  from assms have "\<exists>i. sense s (nreads s + i) = HIGH" by (simp add: responsive_def)
  with Turn_On show ?thesis by (simp add: perform_def Spot_Turn_On_returns_iff)
next
  case Turn_Off
  from assms have "\<exists>i. sense s (nreads s + i) = LOW" by (simp add: responsive_def)
  with Turn_Off show ?thesis by (simp add: perform_def Spot_Turn_Off_returns_iff)
qed (simp_all add: perform_def)

lemma action_responsive:
  assumes "responsive s"
  shows "\<exists>t. action s = Some t"
  using perform_responsive [OF assms, of "table_action (SpotGPSState s)"]
  by (auto simp: action_table)

lemma fire_arith:
  assumes "r < 198" and "remaining r = 1" and "r' = (if r = 197 then 0 else Suc r)"
  shows "state_at r' = table_next (state_at r)"
    and "remaining r' = table_threshold (table_next (state_at r))"
    and "(if r' = 1 then Some Turn_On
          else if r' = 2 then Some Message_OK
          else if r' = 40 then Some Turn_Off
          else if r' = 100 then Some Turn_On
          else if r' = 101 then Some Message_Custom
          else if r' = 139 then Some Turn_Off
          else None) = Some (table_action (state_at r))"
proof -
  from assms have "r = 0 \<or> r = 1 \<or> r = 39 \<or> r = 99 \<or> r = 100 \<or> r = 138"
    by (auto simp: remaining_def split: if_splits)
  with assms(3) show "state_at r' = table_next (state_at r)"
    and "remaining r' = table_threshold (table_next (state_at r))"
    and "(if r' = 1 then Some Turn_On
          else if r' = 2 then Some Message_OK
          else if r' = 40 then Some Turn_Off
          else if r' = 100 then Some Turn_On
          else if r' = 101 then Some Message_Custom
          else if r' = 139 then Some Turn_Off
          else None) = Some (table_action (state_at r))"
    by (auto simp: state_at_def remaining_def table_next_def table_threshold_def
        table_action_def state_defs kSpotOnTime_def kSpotOffTime_def)
qed

lemma idle_arith:
  assumes "r < 198" and "remaining r \<noteq> 1" and "r' = (if r = 197 then 0 else Suc r)"
  shows "state_at r' = state_at r"
    and "remaining r' = remaining r - 1"
    and "(if r' = 1 then Some Turn_On
          else if r' = 2 then Some Message_OK
          else if r' = 40 then Some Turn_Off
          else if r' = 100 then Some Turn_On
          else if r' = 101 then Some Message_Custom
          else if r' = 139 then Some Turn_Off
          else None) = None"
    and "r \<noteq> 0" and "1 < remaining r"
  using assms by (auto simp: state_at_def remaining_def split: if_splits)

lemma loop_step:
  assumes resp: "responsive s" and sch: "on_schedule n s"
  shows "\<exists>t. loop s = Some t \<and> on_schedule (Suc n) t \<and>
             calls t = calls s @ (case due (Suc n) of None \<Rightarrow> [] | Some p \<Rightarrow> [p]) \<and>
             sense t = sense s"
proof -
  define r where "r = n mod 198"
  define r' where "r' = Suc n mod 198"
  have r: "r < 198" by (simp add: r_def)
  have r': "r' = (if r = 197 then 0 else Suc r)"
    by (simp add: r_def r'_def mod_Suc)
  have due: "due (Suc n) =
         (if r' = 1 then Some Turn_On
          else if r' = 2 then Some Message_OK
          else if r' = 40 then Some Turn_Off
          else if r' = 100 then Some Turn_On
          else if r' = 101 then Some Message_Custom
          else if r' = 139 then Some Turn_Off
          else None)"
    by (simp add: due_def r'_def)
  from sch have st: "SpotGPSState s = state_at r"
    and c0: "0 \<le> counter8s s"
    and rem: "q8SecondBlocks s - counter8s s = remaining r"
    and q: "q8SecondBlocks s = (if n = 0 then 1 else table_threshold (state_at r))"
    by (simp_all add: on_schedule_def r_def)
  have q60: "q8SecondBlocks s \<le> 60"
    by (simp add: q table_threshold_def kSpotOnTime_def kSpotOffTime_def)
  show ?thesis
  proof (cases "remaining r = 1")
    case True
    note fire = fire_arith [OF r True r']
    from True rem c0 q60 have w: "wrap16 (counter8s s + 1) = q8SecondBlocks s"
      by (simp add: wrap16_id)
    have "responsive (s\<lparr>counter8s := 0\<rparr>)"
      using resp by (simp add: responsive_def)
    from action_responsive [OF this] obtain t where t: "action (s\<lparr>counter8s := 0\<rparr>) = Some t"
      by blast
    from action_frame [OF t] st
    have f: "calls t = calls s @ [table_action (state_at r)]"
      "SpotGPSState t = table_next (state_at r)"
      "q8SecondBlocks t = table_threshold (table_next (state_at r))"
      "counter8s t = 0" "sense t = sense s"
      by simp_all
    have "loop s = Some t"
      by (simp add: loop_def EightSeconds_eq w t)
    moreover have "on_schedule (Suc n) t"
      unfolding on_schedule_def r'_def [symmetric]
      using fire(1,2) f by simp
    moreover have "calls t = calls s @ (case due (Suc n) of None \<Rightarrow> [] | Some p \<Rightarrow> [p])"
      unfolding due using fire(3) f(1) by simp
    ultimately show ?thesis using f by blast
  next
    case False
    note idle = idle_arith [OF r False r']
    from idle(4) have n0: "n \<noteq> 0" by (auto simp: r_def)
    from rem idle(5) have lt: "counter8s s + 1 < q8SecondBlocks s" by simp
    with c0 q60 have w: "wrap16 (counter8s s + 1) = counter8s s + 1"
      by (simp add: wrap16_id)
    let ?t = "s\<lparr>counter8s := counter8s s + 1\<rparr>"
    have "loop s = Some ?t"
      using lt by (simp add: loop_def EightSeconds_eq w)
    moreover have "on_schedule (Suc n) ?t"
      unfolding on_schedule_def r'_def [symmetric]
      using idle(1,2) st c0 rem q n0 by simp
    moreover have "calls ?t = calls s @ (case due (Suc n) of None \<Rightarrow> [] | Some p \<Rightarrow> [p])"
      unfolding due using idle(3) by simp
    ultimately show ?thesis by force
  qed
qed

lemma ticks_Suc_last: "ticks (Suc n) s = Option.bind (ticks n s) loop"
proof (induction n arbitrary: s)
  case 0
  show ?case by (cases "loop s") simp_all
next
  case (Suc n)
  show ?case
  proof (cases "loop s")
    case None
    then show ?thesis by simp
  next
    case (Some u)
    have "ticks (Suc (Suc n)) s = ticks (Suc n) u"
      by (simp add: Some)
    also have "\<dots> = Option.bind (ticks n u) loop"
      by (rule Suc.IH)
    also have "ticks n u = ticks (Suc n) s"
      by (simp add: Some)
    finally show ?thesis .
  qed
qed

lemma on_schedule_setup: "on_schedule 0 (setup_sketch s)"
  by (simp add: on_schedule_def setup_sketch_def state_at_def remaining_def)

lemma run_on_schedule:
  assumes resp: "responsive s"
  shows "\<exists>t. ticks n (setup_sketch s) = Some t \<and> on_schedule n t \<and>
             calls t = calls s @ fired n \<and> sense t = sense s"
proof (induction n)
  case 0
  show ?case by (simp add: on_schedule_setup) (simp add: setup_sketch_def)
next
  case (Suc n)
  then obtain u where u: "ticks n (setup_sketch s) = Some u" "on_schedule n u"
    "calls u = calls s @ fired n" "sense u = sense s"
    by blast
  from resp u(4) have "responsive u" by (simp add: responsive_def)
  from loop_step [OF this u(2)] obtain t where t: "loop u = Some t" "on_schedule (Suc n) t"
    "calls t = calls u @ (case due (Suc n) of None \<Rightarrow> [] | Some p \<Rightarrow> [p])" "sense t = sense u"
    by blast
  have "ticks (Suc n) (setup_sketch s) = Some t"
    by (simp only: ticks_Suc_last u(1) t(1) Option.bind.simps)
  with t u show ?case by simp
qed

lemma responsive_bench: "responsive bench"
proof -
  have h: "\<exists>i. (n + i) mod 4 = 1" for n :: nat
    by presburger
  have l: "\<exists>i. (n + i) mod 4 = 0" for n :: nat
    by presburger
  show ?thesis
    unfolding responsive_def
  proof (intro conjI allI)
    fix n :: nat
    from h [of n] obtain i where "(n + i) mod 4 = 1" ..
    then have "sense bench (n + i) = HIGH" by (simp add: bench_def)
    then show "\<exists>i. sense bench (n + i) = HIGH" ..
  next
    fix n :: nat
    from l [of n] obtain i where "(n + i) mod 4 = 0" ..
    then have "sense bench (n + i) = LOW" by (simp add: bench_def)
    then show "\<exists>i. sense bench (n + i) = LOW" ..
  qed
qed

lemma fired_2: "fired 2 = [Turn_On, Message_OK]"
  by code_simp

lemma fired_39: "fired 39 = [Turn_On, Message_OK]"
  by code_simp

lemma fired_78: "fired 78 = [Turn_On, Message_OK, Turn_Off]"
  by code_simp

lemma fired_139: "fired 139 = [Turn_On, Message_OK, Turn_Off, Turn_On, Message_Custom, Turn_Off]"
  by code_simp

lemma table_threshold_bounds: "0 < table_threshold st \<and> table_threshold st \<le> 60"
  by (simp add: table_threshold_def kSpotOnTime_def kSpotOffTime_def)

lemma loop_inv:
  assumes inv: "tick_inv s" and ret: "loop s = Some t"
  shows "tick_inv t"
proof (cases "q8SecondBlocks s \<le> wrap16 (counter8s s + 1)")
  case True
  with ret have "action (s\<lparr>counter8s := 0\<rparr>) = Some t"
    by (simp add: loop_def EightSeconds_eq)
  from action_frame [OF this] table_threshold_bounds [of "table_next (SpotGPSState s)"]
  show ?thesis by (simp add: tick_inv_def)
next
  case False
  from inv have "wrap16 (counter8s s + 1) = counter8s s + 1"
    by (simp add: tick_inv_def wrap16_id)
  with False ret inv show ?thesis
    by (auto simp: loop_def EightSeconds_eq tick_inv_def)
qed

lemma ticks_inv: "tick_inv s \<Longrightarrow> ticks n s = Some t \<Longrightarrow> tick_inv t"
proof (induction n arbitrary: s)
  case 0
  then show ?case by simp
next
  case (Suc n)
  from Suc.prems(2) obtain u where u: "loop s = Some u" "ticks n u = Some t"
    by (cases "loop s") simp_all
  from loop_inv [OF Suc.prems(1) u(1)] u(2) show ?case by (rule Suc.IH)
qed

lemma tick_inv_setup: "tick_inv (setup_sketch s)"
  by (simp add: tick_inv_def setup_sketch_def)

lemma EightSeconds_calls:
  assumes "EightSeconds s = Some t"
  shows "if q8SecondBlocks s \<le> wrap16 (counter8s s + 1)
         then counter8s t = 0 \<and> (\<exists>p. calls t = calls s @ [p])
         else counter8s t = wrap16 (counter8s s + 1) \<and> calls t = calls s"
proof (cases "q8SecondBlocks s \<le> wrap16 (counter8s s + 1)")
  case True
  with assms have "action (s\<lparr>counter8s := 0\<rparr>) = Some t"
    by (simp add: EightSeconds_eq)
  from action_frame [OF this] True show ?thesis by simp
next
  case False
  with assms show ?thesis by (auto simp: EightSeconds_eq)
qed

lemma bench_first_tick:
  "EightSeconds (setup_sketch bench) =
     Some ((pressed Turn_On LOW 0 ((setup_sketch bench)\<lparr>counter8s := 0\<rparr>))
             \<lparr>SpotGPSState := Power_On, q8SecondBlocks := 1\<rparr>)"
proof -
  let ?s = "(setup_sketch bench)\<lparr>counter8s := 0\<rparr>"
  have on: "Spot_Turn_On ?s = Some (pressed Turn_On LOW 0 ?s)"
    by (rule Spot_Turn_On_pressed) (simp_all add: setup_sketch_def bench_def)
  have st: "SpotGPSState ?s = Power_Off"
    by (simp add: setup_sketch_def)
  have "EightSeconds (setup_sketch bench) = action ?s"
    by (simp add: EightSeconds_eq wrap16_def setup_sketch_def)
  also have "\<dots> = Some ((pressed Turn_On LOW 0 ?s)\<lparr>SpotGPSState := Power_On,
                                                      q8SecondBlocks := 1\<rparr>)"
    by (simp add: action_def st on)
  finally show ?thesis .
qed

lemma fired_mono: "m \<le> n \<Longrightarrow> length (fired m) \<le> length (fired n)"
proof (induction n)
  case 0
  then show ?case by simp
next
  case (Suc n)
  show ?case
  proof (cases "m = Suc n")
    case True
    then show ?thesis by simp
  next
    case False
    with Suc.prems have "m \<le> n" by simp
    then have "length (fired m) \<le> length (fired n)" by (rule Suc.IH)
    then show ?thesis by simp
  qed
qed

lemma fired_1: "fired 1 = [Turn_On]"
  by code_simp

lemma fired_38: "fired 38 = [Turn_On, Message_OK]"
  by code_simp

lemma fired_138: "fired 138 = [Turn_On, Message_OK, Turn_Off, Turn_On, Message_Custom]"
  by code_simp

lemma fired_337:
  "fired 337 = [Turn_On, Message_OK, Turn_Off, Turn_On, Message_Custom, Turn_Off,
                Turn_On, Message_OK, Turn_Off, Turn_On, Message_Custom, Turn_Off]"
  by code_simp

lemma due_ticks: "filter (\<lambda>k. due k \<noteq> None) [1..<199] = [1, 2, 40, 100, 101, 139]"
  by code_simp

lemma due_period: "due (n + 198) = due n"
  by (simp add: due_def)

lemma cycle_length: "1 + 1 + nat kSpotOnTime + nat kSpotOffTime + 1 + nat kSpotOnTime = 139"
  by (simp add: kSpotOnTime_def kSpotOffTime_def)


section \<open>The state machine\<close>

text \<open>
  Claim C1.  In each of the six states of the enumeration, \<open>action\<close> runs the one
  procedure the table of section 4.3 gives for that state and nothing else, returns
  exactly when that procedure returns, and then the state is the table's next state and
  \<open>q8SecondBlocks\<close> is the threshold the table gives for that next state (1, N, M, 1,
  N, M).  The history of entered procedures grows by that one procedure.
\<close>

theorem action_follows_table:
  "defined_state (SpotGPSState s) \<longrightarrow>
     action s =
       map_option (\<lambda>t. t\<lparr>SpotGPSState := table_next (SpotGPSState s),
                         q8SecondBlocks := table_threshold (table_next (SpotGPSState s))\<rparr>)
         (perform (table_action (SpotGPSState s)) s)
     \<and> (\<forall>t. action s = Some t \<longrightarrow>
           calls t = calls s @ [table_action (SpotGPSState s)] \<and>
           SpotGPSState t = table_next (SpotGPSState s) \<and>
           q8SecondBlocks t = table_threshold (SpotGPSState t))"
proof (intro impI conjI allI)
  show "action s =
       map_option (\<lambda>t. t\<lparr>SpotGPSState := table_next (SpotGPSState s),
                         q8SecondBlocks := table_threshold (table_next (SpotGPSState s))\<rparr>)
         (perform (table_action (SpotGPSState s)) s)"
    by (rule action_table)
next
  fix t assume "action s = Some t"
  from action_frame [OF this]
  show "calls t = calls s @ [table_action (SpotGPSState s)]"
    "SpotGPSState t = table_next (SpotGPSState s)"
    "q8SecondBlocks t = table_threshold (SpotGPSState t)"
    by simp_all
qed

theorem action_follows_table_witness:
  "defined_state (SpotGPSState slow)
   \<and> map_option calls (action slow) = Some [Turn_On]
   \<and> map_option SpotGPSState (action slow) = Some Power_On
   \<and> map_option q8SecondBlocks (action slow) = Some 1
   \<and> map_option io_log (action slow) = Some (power_log LOW 2)"
proof -
  have d: "defined_state (SpotGPSState slow)" "SpotGPSState slow = Power_Off"
    by (simp_all add: slow_def bench_def defined_state_def Power_Off_def)
  with action_follows_table [of slow]
  have "action slow =
       map_option (\<lambda>t. t\<lparr>SpotGPSState := table_next Power_Off,
                         q8SecondBlocks := table_threshold (table_next Power_Off)\<rparr>)
         (perform (table_action Power_Off) slow)"
    by simp
  then have "action slow =
       Some ((pressed Turn_On LOW 2 slow)\<lparr>SpotGPSState := Power_On, q8SecondBlocks := 1\<rparr>)"
    by (simp add: table_next_def table_action_def table_threshold_def perform_def slow_on)
  then show ?thesis
    using d by (simp add: pressed_def slow_def bench_def)
qed



text \<open>
  Claim C6.  With a state value outside the enumeration, \<open>action\<close> runs \<open>Spot_Turn_Off\<close>
  and nothing else, and sets the state to \<open>Power_Off\<close> and the threshold to
  \<open>kSpotOffTime\<close>.  The step returns exactly when one of the coming readings of the sense
  line is LOW.
\<close>

theorem unrecognized_state_recovery:
  "\<not> defined_state (SpotGPSState s) \<longrightarrow>
     action s =
       map_option (\<lambda>t. t\<lparr>SpotGPSState := Power_Off, q8SecondBlocks := kSpotOffTime\<rparr>)
         (Spot_Turn_Off s)
     \<and> ((\<exists>t. action s = Some t) \<longleftrightarrow> (\<exists>i. sense s (nreads s + i) = LOW))
     \<and> (\<forall>t. action s = Some t \<longrightarrow>
           calls t = calls s @ [Turn_Off] \<and> SpotGPSState t = Power_Off \<and>
           q8SecondBlocks t = kSpotOffTime)"
proof (intro impI conjI allI)
  assume bad: "\<not> defined_state (SpotGPSState s)"
  then show eq: "action s =
       map_option (\<lambda>t. t\<lparr>SpotGPSState := Power_Off, q8SecondBlocks := kSpotOffTime\<rparr>)
         (Spot_Turn_Off s)"
    by (simp add: action_def defined_state_def)
  show "(\<exists>t. action s = Some t) \<longleftrightarrow> (\<exists>i. sense s (nreads s + i) = LOW)"
    using Spot_Turn_Off_returns_iff [of s] by (auto simp: eq)
  fix t assume "action s = Some t"
  then have "map_option (\<lambda>t. t\<lparr>SpotGPSState := Power_Off, q8SecondBlocks := kSpotOffTime\<rparr>)
         (Spot_Turn_Off s) = Some t"
    by (simp add: eq)
  then obtain u where u: "Spot_Turn_Off s = Some u"
    and t: "t = u\<lparr>SpotGPSState := Power_Off, q8SecondBlocks := kSpotOffTime\<rparr>"
    by auto
  from Spot_Turn_Off_frame [OF u] t
  show "calls t = calls s @ [Turn_Off]" "SpotGPSState t = Power_Off"
    "q8SecondBlocks t = kSpotOffTime"
    by simp_all
qed


theorem unrecognized_state_recovery_witness:
  "defined_state (SpotGPSState corrupt) = False
   \<and> sense corrupt (nreads corrupt + 3) = LOW
   \<and> map_option calls (action corrupt) = Some [Turn_Off]
   \<and> map_option SpotGPSState (action corrupt) = Some Power_Off
   \<and> map_option q8SecondBlocks (action corrupt) = Some kSpotOffTime"
proof -
  have bad: "\<not> defined_state (SpotGPSState corrupt)"
    by (simp add: corrupt_def defined_state_def state_defs)
  have low: "sense corrupt (nreads corrupt + 3) = LOW" "calls corrupt = []"
    by (simp_all add: corrupt_def stuck_def bench_def)
  then have "\<exists>i. sense corrupt (nreads corrupt + i) = LOW" by blast
  with unrecognized_state_recovery [of corrupt] bad obtain t where t: "action corrupt = Some t"
    by blast
  with unrecognized_state_recovery [of corrupt] bad
  have "calls t = calls corrupt @ [Turn_Off]" "SpotGPSState t = Power_Off"
    "q8SecondBlocks t = kSpotOffTime"
    by blast+
  with bad low t show ?thesis by simp
qed

text \<open>
  Claim C10.  After \<open>setup\<close> the state is one of the enumeration and the threshold is
  1.  After any call of \<open>action\<close> that returns, from whatever state value, the state is
  one of the six enumerators and the threshold is 1, \<open>kSpotOnTime\<close> or \<open>kSpotOffTime\<close>,
  hence at least 1.
\<close>

theorem state_and_threshold_always_valid:
  "defined_state (SpotGPSState (setup_sketch s)) \<and> q8SecondBlocks (setup_sketch s) = 1
   \<and> (\<forall>t. action s = Some t \<longrightarrow>
         defined_state (SpotGPSState t) \<and>
         (q8SecondBlocks t = 1 \<or> q8SecondBlocks t = kSpotOnTime \<or>
          q8SecondBlocks t = kSpotOffTime) \<and>
         1 \<le> q8SecondBlocks t)"
proof (intro conjI allI impI)
  fix t assume "action s = Some t"
  from action_frame [OF this]
  have st: "SpotGPSState t = table_next (SpotGPSState s)"
    and q: "q8SecondBlocks t = table_threshold (table_next (SpotGPSState s))"
    by simp_all
  show "defined_state (SpotGPSState t)"
    by (simp add: st table_next_def defined_state_def)
  show "q8SecondBlocks t = 1 \<or> q8SecondBlocks t = kSpotOnTime \<or> q8SecondBlocks t = kSpotOffTime"
    by (simp add: q table_threshold_def)
  show "1 \<le> q8SecondBlocks t"
    by (simp add: q table_threshold_def kSpotOnTime_def kSpotOffTime_def)
qed (simp_all add: setup_sketch_def defined_state_def)


theorem state_and_threshold_always_valid_witness:
  "defined_state (SpotGPSState (setup_sketch (bench\<lparr>SpotGPSState := - 1\<rparr>)))
   \<and> map_option SpotGPSState (action (bench\<lparr>SpotGPSState := - 1\<rparr>)) = Some Power_Off
   \<and> map_option (\<lambda>t. defined_state (SpotGPSState t)) (action (bench\<lparr>SpotGPSState := - 1\<rparr>)) =
       Some True
   \<and> map_option (\<lambda>t. 1 \<le> q8SecondBlocks t) (action (bench\<lparr>SpotGPSState := - 1\<rparr>)) =
       Some True"
proof -
  let ?b = "bench\<lparr>SpotGPSState := - 1\<rparr>"
  have "Spot_Turn_Off ?b = Some (skipped Turn_Off LOW ?b)"
    by (rule Spot_Turn_Off_skipped) (simp add: bench_def)
  then have t: "action ?b =
    Some ((skipped Turn_Off LOW ?b)\<lparr>SpotGPSState := Power_Off, q8SecondBlocks := kSpotOffTime\<rparr>)"
    by (simp add: action_def state_defs)
  from state_and_threshold_always_valid [of ?b] t
  show ?thesis by simp
qed

section \<open>The tick accumulator\<close>

text \<open>
  Claim C4.  \<open>EightSeconds\<close> adds one to \<open>counter8s\<close> (in 16-bit arithmetic, which is
  plain addition below 32767); if the new count has reached \<open>q8SecondBlocks\<close> it sets
  the counter to zero and calls \<open>action\<close> once, otherwise it only stores the new count.
  A pass that returns has therefore entered at most one device procedure, however far
  the count was above the threshold, and after a pass that called \<open>action\<close> the counter
  is 0.  From \<open>setup\<close> on, after any number of passes, the counter is non-negative and
  below the threshold, so the incremented count never exceeds the threshold.
\<close>

theorem tick_accumulator:
  "EightSeconds s =
     (if q8SecondBlocks s \<le> wrap16 (counter8s s + 1) then action (s\<lparr>counter8s := 0\<rparr>)
      else Some (s\<lparr>counter8s := wrap16 (counter8s s + 1)\<rparr>))
   \<and> (- 32768 \<le> counter8s s \<and> counter8s s < 32767 \<longrightarrow>
        wrap16 (counter8s s + 1) = counter8s s + 1)
   \<and> (\<forall>t. EightSeconds s = Some t \<longrightarrow>
         (if q8SecondBlocks s \<le> wrap16 (counter8s s + 1)
          then counter8s t = 0 \<and> (\<exists>p. calls t = calls s @ [p])
          else counter8s t = wrap16 (counter8s s + 1) \<and> calls t = calls s))
   \<and> (\<forall>t. ticks n (setup_sketch s) = Some t \<longrightarrow>
         0 \<le> counter8s t \<and> counter8s t < q8SecondBlocks t)"
proof (intro conjI allI impI)
  show "EightSeconds s =
     (if q8SecondBlocks s \<le> wrap16 (counter8s s + 1) then action (s\<lparr>counter8s := 0\<rparr>)
      else Some (s\<lparr>counter8s := wrap16 (counter8s s + 1)\<rparr>))"
    by (rule EightSeconds_eq)
next
  assume "- 32768 \<le> counter8s s \<and> counter8s s < 32767"
  then show "wrap16 (counter8s s + 1) = counter8s s + 1"
    by (simp add: wrap16_id)
next
  fix t assume "EightSeconds s = Some t"
  then show "if q8SecondBlocks s \<le> wrap16 (counter8s s + 1)
          then counter8s t = 0 \<and> (\<exists>p. calls t = calls s @ [p])
          else counter8s t = wrap16 (counter8s s + 1) \<and> calls t = calls s"
    by (rule EightSeconds_calls)
next
  fix t assume "ticks n (setup_sketch s) = Some t"
  from ticks_inv [OF tick_inv_setup this]
  show "0 \<le> counter8s t" "counter8s t < q8SecondBlocks t"
    by (simp_all add: tick_inv_def)
qed

theorem tick_accumulator_witness:
  "- 32768 \<le> counter8s (setup_sketch bench) \<and> counter8s (setup_sketch bench) < 32767
   \<and> map_option counter8s (EightSeconds (setup_sketch bench)) = Some 0
   \<and> map_option calls (EightSeconds (setup_sketch bench)) = Some [Turn_On]
   \<and> map_option (\<lambda>t. 0 \<le> counter8s t \<and> counter8s t < q8SecondBlocks t)
        (ticks 50 (setup_sketch (setup_sketch bench))) = Some True"
proof -
  let ?s = "setup_sketch bench"
  have "responsive ?s"
    using responsive_bench by (simp add: responsive_def setup_sketch_def)
  from run_on_schedule [OF this, of 50] obtain t where t: "ticks 50 (setup_sketch ?s) = Some t"
    by blast
  with tick_accumulator [of ?s 50]
  have "0 \<le> counter8s t \<and> counter8s t < q8SecondBlocks t" by blast
  with t show ?thesis
    by (simp add: bench_first_tick) (simp add: setup_sketch_def bench_def pressed_def)
qed


section \<open>The timetable from a cold start\<close>

text \<open>
  Claim C2, as the sketch has it.  With a device that answers, the first full cycle
  after \<open>setup\<close> takes 1 + 1 + N + M + 1 + N ticks, which is 139: after that many passes
  of \<open>loop\<close> the state is \<open>Power_Off\<close> again and the procedures entered are power-on,
  message OK, power-off, power-on, custom message, power-off, in this order; after
  fewer passes fewer than six procedures have been entered.
\<close>

theorem full_cycle_from_cold_start:
  "responsive s \<longrightarrow>
     (\<exists>t. ticks (1 + 1 + nat kSpotOnTime + nat kSpotOffTime + 1 + nat kSpotOnTime)
             (setup_sketch s) = Some t \<and>
          SpotGPSState t = Power_Off \<and>
          calls t = calls s @ [Turn_On, Message_OK, Turn_Off, Turn_On, Message_Custom, Turn_Off])
     \<and> (\<forall>n u. n < 1 + 1 + nat kSpotOnTime + nat kSpotOffTime + 1 + nat kSpotOnTime \<and>
               ticks n (setup_sketch s) = Some u \<longrightarrow>
               length (calls u) < length (calls s) + 6)"
  unfolding cycle_length
proof (intro impI conjI allI)
  assume resp: "responsive s"
  from run_on_schedule [OF resp, of 139] obtain t
    where t: "ticks 139 (setup_sketch s) = Some t" "on_schedule 139 t"
      "calls t = calls s @ fired 139"
    by blast
  from t(2) have "SpotGPSState t = Power_Off"
    by (simp add: on_schedule_def state_at_def)
  with t(1,3) show "\<exists>t. ticks 139 (setup_sketch s) = Some t \<and>
          SpotGPSState t = Power_Off \<and>
          calls t = calls s @ [Turn_On, Message_OK, Turn_Off, Turn_On, Message_Custom, Turn_Off]"
    by (simp add: fired_139)
next
  fix n u
  assume resp: "responsive s"
    and "n < 139 \<and> ticks n (setup_sketch s) = Some u"
  then have n: "n \<le> 138" and u: "ticks n (setup_sketch s) = Some u"
    by simp_all
  from run_on_schedule [OF resp, of n] u have "calls u = calls s @ fired n"
    by auto
  moreover from fired_mono [OF n] have "length (fired n) \<le> 5"
    by (simp add: fired_138)
  ultimately show "length (calls u) < length (calls s) + 6" by simp
qed

theorem full_cycle_from_cold_start_witness:
  "responsive bench
   \<and> map_option SpotGPSState (ticks 139 (setup_sketch bench)) = Some Power_Off
   \<and> map_option calls (ticks 139 (setup_sketch bench)) =
       Some [Turn_On, Message_OK, Turn_Off, Turn_On, Message_Custom, Turn_Off]
   \<and> map_option (\<lambda>u. length (calls u)) (ticks 138 (setup_sketch bench)) = Some 5"
proof -
  from full_cycle_from_cold_start [of bench, unfolded cycle_length] responsive_bench obtain t
    where t: "ticks 139 (setup_sketch bench) = Some t" "SpotGPSState t = Power_Off"
      "calls t = calls bench @ [Turn_On, Message_OK, Turn_Off, Turn_On, Message_Custom, Turn_Off]"
    by blast
  from run_on_schedule [OF responsive_bench, of 138] obtain u
    where u: "ticks 138 (setup_sketch bench) = Some u" "calls u = calls bench @ fired 138"
    by blast
  from t u responsive_bench show ?thesis
    by (simp add: fired_138) (simp add: bench_def)
qed

text \<open>
  Claim C2 as stated fails: 1 + N + 1 + N ticks, which is 78, end in the off time of
  the first half of the cycle.  The state is \<open>Power_Off_2\<close> and three procedures have
  been entered.
\<close>

theorem short_cycle_stops_in_second_off_state:
  "map_option SpotGPSState
     (ticks (1 + nat kSpotOnTime + 1 + nat kSpotOnTime) (setup_sketch bench)) = Some Power_Off_2
   \<and> map_option calls
     (ticks (1 + nat kSpotOnTime + 1 + nat kSpotOnTime) (setup_sketch bench)) =
       Some [Turn_On, Message_OK, Turn_Off]"
proof -
  have n: "1 + nat kSpotOnTime + 1 + nat kSpotOnTime = 78"
    by (simp add: kSpotOnTime_def)
  from run_on_schedule [OF responsive_bench, of 78] obtain t
    where t: "ticks 78 (setup_sketch bench) = Some t" "on_schedule 78 t"
      "calls t = calls bench @ fired 78"
    by blast
  from t(2) have "SpotGPSState t = Power_Off_2"
    by (simp add: on_schedule_def state_at_def)
  with t(1,3) show ?thesis
    unfolding n by (simp add: fired_78) (simp add: bench_def)
qed


text \<open>
  Claim C3, as the sketch has it.  With a device that answers, the procedures entered
  in the first \<open>n\<close> ticks after \<open>setup\<close> are those of the timetable \<open>due\<close>: power-on at
  tick 1, message OK at tick 2, power-off at tick 40, power-on at tick 100, custom
  message at tick 101, power-off at tick 139, nothing at any other tick up to 198, and
  the same again every 198 ticks.
\<close>

theorem cold_start_timetable:
  "(responsive s \<longrightarrow>
      (\<exists>t. ticks n (setup_sketch s) = Some t \<and> calls t = calls s @ fired n \<and>
           SpotGPSState t = state_at (n mod 198)))
   \<and> fired (Suc n) = fired n @ (case due (Suc n) of None \<Rightarrow> [] | Some p \<Rightarrow> [p])
   \<and> due (n + 198) = due n
   \<and> filter (\<lambda>k. due k \<noteq> None) [1..<199] = [1, 2, 40, 100, 101, 139]
   \<and> map due [1, 2, 40, 100, 101, 139] =
       [Some Turn_On, Some Message_OK, Some Turn_Off,
        Some Turn_On, Some Message_Custom, Some Turn_Off]"
proof (intro conjI impI)
  assume "responsive s"
  from run_on_schedule [OF this, of n]
  show "\<exists>t. ticks n (setup_sketch s) = Some t \<and> calls t = calls s @ fired n \<and>
           SpotGPSState t = state_at (n mod 198)"
    by (auto simp: on_schedule_def)
next
  show "map due [1, 2, 40, 100, 101, 139] =
       [Some Turn_On, Some Message_OK, Some Turn_Off,
        Some Turn_On, Some Message_Custom, Some Turn_Off]"
    by (simp add: due_def)
next
  show "fired (Suc n) = fired n @ (case due (Suc n) of None \<Rightarrow> [] | Some p \<Rightarrow> [p])"
    by simp
next
  show "due (n + 198) = due n"
    by (rule due_period)
next
  show "filter (\<lambda>k. due k \<noteq> None) [1..<199] = [1, 2, 40, 100, 101, 139]"
    by (rule due_ticks)
qed

theorem cold_start_timetable_witness:
  "responsive bench
   \<and> map_option calls (ticks 337 (setup_sketch bench)) =
       Some [Turn_On, Message_OK, Turn_Off, Turn_On, Message_Custom, Turn_Off,
             Turn_On, Message_OK, Turn_Off, Turn_On, Message_Custom, Turn_Off]
   \<and> map_option SpotGPSState (ticks 337 (setup_sketch bench)) = Some Power_Off"
proof -
  from cold_start_timetable [of bench 337] responsive_bench obtain t
    where "ticks 337 (setup_sketch bench) = Some t" "calls t = calls bench @ fired 337"
      "SpotGPSState t = state_at (337 mod 198)"
    by blast
  with responsive_bench show ?thesis
    by (simp add: fired_337 state_at_def) (simp add: bench_def)
qed

text \<open>
  Claim C3 as stated fails: the OK message is sent at tick 2, and nothing happens at
  tick 39.
\<close>

theorem message_sent_at_second_tick:
  "map_option calls (ticks 1 (setup_sketch bench)) = Some [Turn_On]
   \<and> map_option calls (ticks 2 (setup_sketch bench)) = Some [Turn_On, Message_OK]
   \<and> map_option calls (ticks 38 (setup_sketch bench)) = Some [Turn_On, Message_OK]
   \<and> map_option calls (ticks 39 (setup_sketch bench)) = Some [Turn_On, Message_OK]"
proof -
  have "map_option calls (ticks n (setup_sketch bench)) = Some (fired n)" for n
    using run_on_schedule [OF responsive_bench, of n] by (auto simp: bench_def)
  then show ?thesis
    by (simp only: fired_1 fired_2 fired_38 fired_39 simp_thms)
qed


section \<open>Power procedures called when there is nothing to do\<close>

text \<open>
  Claim C5.  When the sense line already reads HIGH, \<open>Spot_Turn_On\<close> returns after
  setting the sense pin to input and reading it once: the log gains these two calls
  and nothing else, so no button is pressed, no level is written and no pin other
  than the sense pin has its direction touched.  The same holds for \<open>Spot_Turn_Off\<close>
  when the sense line already reads LOW.
\<close>

theorem power_call_already_there:
  "(sense s (nreads s) = HIGH \<longrightarrow>
      (\<exists>t. Spot_Turn_On s = Some t \<and>
           io_log t = io_log s @ [PinMode SpotOn3VSense INPUT, DigitalRead SpotOn3VSense HIGH] \<and>
           outs t = outs s \<and>
           (\<forall>p. p \<noteq> SpotOn3VSense \<longrightarrow> modes t p = modes s p)))
   \<and> (sense u (nreads u) = LOW \<longrightarrow>
      (\<exists>t. Spot_Turn_Off u = Some t \<and>
           io_log t = io_log u @ [PinMode SpotOn3VSense INPUT, DigitalRead SpotOn3VSense LOW] \<and>
           outs t = outs u \<and>
           (\<forall>p. p \<noteq> SpotOn3VSense \<longrightarrow> modes t p = modes u p)))"
  by (simp add: Spot_Turn_On_skipped Spot_Turn_Off_skipped skipped_def)

theorem power_call_already_there_witness:
  "sense (bench\<lparr>nreads := 1\<rparr>) (nreads (bench\<lparr>nreads := 1\<rparr>)) = HIGH
   \<and> map_option io_log (Spot_Turn_On (bench\<lparr>nreads := 1\<rparr>)) =
       Some [PinMode SpotOn3VSense INPUT, DigitalRead SpotOn3VSense HIGH]
   \<and> map_option outs (Spot_Turn_On (bench\<lparr>nreads := 1\<rparr>)) = Some (outs bench)
   \<and> sense bench (nreads bench) = LOW
   \<and> map_option io_log (Spot_Turn_Off bench) =
       Some [PinMode SpotOn3VSense INPUT, DigitalRead SpotOn3VSense LOW]
   \<and> map_option outs (Spot_Turn_Off bench) = Some (outs bench)"
  using power_call_already_there [of "bench\<lparr>nreads := 1\<rparr>" bench]
  by (auto simp: bench_def)

section \<open>Waiting for the device\<close>

text \<open>
  Claim C7.  When the first reading of the sense line is LOW, \<open>Spot_Turn_On\<close> returns
  if and only if a later reading is HIGH; there is no other way out of its loop.  When
  it returns, its log is \<open>power_log LOW k\<close>: the button is pressed (output, LOW), the
  line is polled every 100 ms for \<open>k\<close> passes until it reads HIGH, and the button is
  released, which leaves the button pin an input.  \<open>Spot_Turn_Off\<close> is the mirror
  image, started by a HIGH reading and ended by a LOW one.
\<close>

theorem power_wait_termination:
  "(sense s (nreads s) = LOW \<longrightarrow>
      ((\<exists>t. Spot_Turn_On s = Some t) \<longleftrightarrow> (\<exists>i. sense s (nreads s + 1 + i) = HIGH)) \<and>
      (\<forall>t. Spot_Turn_On s = Some t \<longrightarrow>
         (\<exists>k. sense s (nreads s + 1 + k) = HIGH \<and> io_log t = io_log s @ power_log LOW k) \<and>
         modes t SpotOnOffButton = INPUT))
   \<and> (sense u (nreads u) = HIGH \<longrightarrow>
      ((\<exists>t. Spot_Turn_Off u = Some t) \<longleftrightarrow> (\<exists>i. sense u (nreads u + 1 + i) = LOW)) \<and>
      (\<forall>t. Spot_Turn_Off u = Some t \<longrightarrow>
         (\<exists>k. sense u (nreads u + 1 + k) = LOW \<and> io_log t = io_log u @ power_log HIGH k) \<and>
         modes t SpotOnOffButton = INPUT))"
proof (intro conjI impI allI)
  assume low: "sense s (nreads s) = LOW"
  show "(\<exists>t. Spot_Turn_On s = Some t) \<longleftrightarrow> (\<exists>i. sense s (nreads s + 1 + i) = HIGH)"
    using Spot_Turn_On_cases [of s] low
    by (metis add.assoc level.distinct(1) option.distinct(1) plus_1_eq_Suc)
next
  fix t
  assume low: "sense s (nreads s) = LOW" and ret: "Spot_Turn_On s = Some t"
  from Spot_Turn_On_Some [OF ret] low obtain k
    where k: "sense s (nreads s + 1 + k) = HIGH" "t = pressed Turn_On LOW k s"
    by auto
  then show "\<exists>k. sense s (nreads s + 1 + k) = HIGH \<and> io_log t = io_log s @ power_log LOW k"
    by (auto simp: pressed_def)
  from k show "modes t SpotOnOffButton = INPUT"
    by (simp add: pressed_def)
next
  assume high: "sense u (nreads u) = HIGH"
  show "(\<exists>t. Spot_Turn_Off u = Some t) \<longleftrightarrow> (\<exists>i. sense u (nreads u + 1 + i) = LOW)"
    using Spot_Turn_Off_cases [of u] high
    by (metis add.assoc level.distinct(1) option.distinct(1) plus_1_eq_Suc)
next
  fix t
  assume high: "sense u (nreads u) = HIGH" and ret: "Spot_Turn_Off u = Some t"
  from Spot_Turn_Off_Some [OF ret] high obtain k
    where k: "sense u (nreads u + 1 + k) = LOW" "t = pressed Turn_Off HIGH k u"
    by auto
  then show "\<exists>k. sense u (nreads u + 1 + k) = LOW \<and> io_log t = io_log u @ power_log HIGH k"
    by (auto simp: pressed_def)
  from k show "modes t SpotOnOffButton = INPUT"
    by (simp add: pressed_def)
qed

theorem power_wait_termination_witness:
  "sense slow (nreads slow) = LOW
   \<and> sense slow (nreads slow + 1 + 2) = HIGH
   \<and> map_option io_log (Spot_Turn_On slow) = Some (power_log LOW 2)
   \<and> map_option (\<lambda>t. modes t SpotOnOffButton) (Spot_Turn_On slow) = Some INPUT
   \<and> sense stuck (nreads stuck) = HIGH
   \<and> sense stuck (nreads stuck + 1 + 2) = LOW
   \<and> map_option io_log (Spot_Turn_Off stuck) = Some (power_log HIGH 2)
   \<and> map_option (\<lambda>t. modes t SpotOnOffButton) (Spot_Turn_Off stuck) = Some INPUT"
proof -
  have a: "sense slow (nreads slow) = LOW" "sense slow (nreads slow + 1 + 2) = HIGH"
    by (simp_all add: slow_def bench_def)
  have b: "sense stuck (nreads stuck) = HIGH" "sense stuck (nreads stuck + 1 + 2) = LOW"
    by (simp_all add: stuck_def bench_def)
  from power_wait_termination [of slow stuck] a b
  have "\<exists>t. Spot_Turn_On slow = Some t" "\<exists>t. Spot_Turn_Off stuck = Some t"
    by blast+
  then obtain t1 t2 where t: "Spot_Turn_On slow = Some t1" "Spot_Turn_Off stuck = Some t2"
    by blast
  with power_wait_termination [of slow stuck] a b
  have m: "modes t1 SpotOnOffButton = INPUT" "modes t2 SpotOnOffButton = INPUT"
    by blast+
  from t slow_on stuck_off
  have "io_log t1 = power_log LOW 2" "io_log t2 = power_log HIGH 2"
    by (simp_all add: pressed_def slow_def stuck_def bench_def)
  with a b t m show ?thesis by simp
qed


section \<open>The watchdog inside the wait loops\<close>

text \<open>
  Claim C8.  Every pass of either wait loop resets the watchdog.  As long as the next
  \<open>k\<close> readings keep the loop going, the loop gets to the state in which exactly \<open>k\<close>
  passes are logged, whether it ever returns or not, and a pass is the reading, the
  100 ms delay and the watchdog reset, in this order.  A loop that returns has logged
  whole passes and the reading that ended it, nothing else.  So a log of \<open>n\<close> passes
  holds \<open>n\<close> delays and \<open>n\<close> resets, each reset right after its delay.
\<close>

theorem wait_loops_feed_watchdog:
  "((\<forall>i<k. sense s (nreads s + i) = LOW) \<longrightarrow>
      Spot_Turn_On_wait s =
      Spot_Turn_On_wait (s\<lparr>nreads := nreads s + k, io_log := io_log s @ poll_log LOW k\<rparr>))
   \<and> ((\<forall>i<j. sense u (nreads u + i) = HIGH) \<longrightarrow>
      Spot_Turn_Off_wait u =
      Spot_Turn_Off_wait (u\<lparr>nreads := nreads u + j, io_log := io_log u @ poll_log HIGH j\<rparr>))
   \<and> (\<forall>t. Spot_Turn_On_wait s = Some t \<longrightarrow>
         (\<exists>n. io_log t = io_log s @ poll_log LOW n @ [DigitalRead SpotOn3VSense HIGH]))
   \<and> (\<forall>t. Spot_Turn_Off_wait u = Some t \<longrightarrow>
         (\<exists>n. io_log t = io_log u @ poll_log HIGH n @ [DigitalRead SpotOn3VSense LOW]))
   \<and> poll_log v (Suc n) = poll_log v n @ [DigitalRead SpotOn3VSense v, Delay 100, WdtReset]
   \<and> length (filter (\<lambda>e. e = WdtReset) (poll_log v n)) = n
   \<and> length (filter (\<lambda>e. e = Delay 100) (poll_log v n)) = n"
proof (intro conjI impI allI)
  assume "\<forall>i<k. sense s (nreads s + i) = LOW"
  then show "Spot_Turn_On_wait s =
      Spot_Turn_On_wait (s\<lparr>nreads := nreads s + k, io_log := io_log s @ poll_log LOW k\<rparr>)"
    by (intro Spot_Turn_On_wait_iterate) simp
next
  assume "\<forall>i<j. sense u (nreads u + i) = HIGH"
  then show "Spot_Turn_Off_wait u =
      Spot_Turn_Off_wait (u\<lparr>nreads := nreads u + j, io_log := io_log u @ poll_log HIGH j\<rparr>)"
    by (intro Spot_Turn_Off_wait_iterate) simp
next
  fix t assume "Spot_Turn_On_wait s = Some t"
  from Spot_Turn_On_wait_Some [OF this]
  show "\<exists>n. io_log t = io_log s @ poll_log LOW n @ [DigitalRead SpotOn3VSense HIGH]"
    by auto
next
  fix t assume "Spot_Turn_Off_wait u = Some t"
  from Spot_Turn_Off_wait_Some [OF this]
  show "\<exists>n. io_log t = io_log u @ poll_log HIGH n @ [DigitalRead SpotOn3VSense LOW]"
    by auto
next
  show "poll_log v (Suc n) = poll_log v n @ [DigitalRead SpotOn3VSense v, Delay 100, WdtReset]"
    by (induction n) (simp_all add: poll_log_def)
next
  show "length (filter (\<lambda>e. e = WdtReset) (poll_log v n)) = n"
    by (induction n) (simp_all add: poll_log_def)
next
  show "length (filter (\<lambda>e. e = Delay 100) (poll_log v n)) = n"
    by (induction n) (simp_all add: poll_log_def)
qed

theorem wait_loops_feed_watchdog_witness:
  "sense slow (nreads slow) = LOW \<and> sense slow (nreads slow + 1) = LOW
   \<and> sense slow (nreads slow + 2) = LOW
   \<and> sense stuck (nreads stuck) = HIGH \<and> sense stuck (nreads stuck + 1) = HIGH
   \<and> map_option io_log (Spot_Turn_On_wait slow) =
       Some [DigitalRead SpotOn3VSense LOW, Delay 100, WdtReset,
             DigitalRead SpotOn3VSense LOW, Delay 100, WdtReset,
             DigitalRead SpotOn3VSense LOW, Delay 100, WdtReset,
             DigitalRead SpotOn3VSense HIGH]
   \<and> map_option io_log (Spot_Turn_Off_wait stuck) =
       Some [DigitalRead SpotOn3VSense HIGH, Delay 100, WdtReset,
             DigitalRead SpotOn3VSense HIGH, Delay 100, WdtReset,
             DigitalRead SpotOn3VSense HIGH, Delay 100, WdtReset,
             DigitalRead SpotOn3VSense LOW]"
proof -
  have a: "\<forall>i<3. sense slow (nreads slow + i) = LOW"
    and b: "\<forall>i<3. sense stuck (nreads stuck + i) = HIGH"
    by (simp_all add: slow_def stuck_def bench_def)
  from wait_loops_feed_watchdog [of 3 slow 3 stuck] a b
  have "Spot_Turn_On_wait slow =
          Spot_Turn_On_wait (slow\<lparr>nreads := nreads slow + 3,
                                  io_log := io_log slow @ poll_log LOW 3\<rparr>)"
    and "Spot_Turn_Off_wait stuck =
          Spot_Turn_Off_wait (stuck\<lparr>nreads := nreads stuck + 3,
                                    io_log := io_log stuck @ poll_log HIGH 3\<rparr>)"
    by blast+
  then show ?thesis
    by (simp add: Spot_Turn_On_wait_exit Spot_Turn_Off_wait_exit slow_def stuck_def bench_def
        poll_log_def numeral_3_eq_3)
qed


section \<open>The indicator LED\<close>

text \<open>
  Claim C9, as the sketch has it.  The two message procedures always blink the LED
  once: it is lit right after the button is pressed and put out right after the button
  is released.  A power procedure does the same when it presses the button and
  returns.  A power procedure that finds the device already in the requested state
  returns without touching the LED.
\<close>

theorem led_pulse_of_primitives:
  "io_log (Spot_Message_OK s) = io_log s @ message_log SpotOkMsgButton
   \<and> filter (on_pin LED) (message_log SpotOkMsgButton) = led_pulse
   \<and> io_log (Spot_Message_Custom s) = io_log s @ message_log SpotCustomMsgButton
   \<and> filter (on_pin LED) (message_log SpotCustomMsgButton) = led_pulse
   \<and> (\<forall>t. Spot_Turn_On s = Some t \<longrightarrow>
         (if sense s (nreads s) = LOW
          then \<exists>k. io_log t = io_log s @ power_log LOW k \<and>
                   filter (on_pin LED) (power_log LOW k) = led_pulse
          else io_log t = io_log s @ [PinMode SpotOn3VSense INPUT, DigitalRead SpotOn3VSense HIGH]))
   \<and> (\<forall>t. Spot_Turn_Off s = Some t \<longrightarrow>
         (if sense s (nreads s) = HIGH
          then \<exists>k. io_log t = io_log s @ power_log HIGH k \<and>
                   filter (on_pin LED) (power_log HIGH k) = led_pulse
          else io_log t = io_log s @ [PinMode SpotOn3VSense INPUT, DigitalRead SpotOn3VSense LOW]))"
proof (intro conjI allI impI)
  show "filter (on_pin LED) (message_log SpotOkMsgButton) = led_pulse"
    by (rule led_message_log) (simp add: pin_defs)
  show "filter (on_pin LED) (message_log SpotCustomMsgButton) = led_pulse"
    by (rule led_message_log) (simp add: pin_defs)
next
  fix t assume "Spot_Turn_On s = Some t"
  from Spot_Turn_On_Some [OF this]
  show "if sense s (nreads s) = LOW
          then \<exists>k. io_log t = io_log s @ power_log LOW k \<and>
                   filter (on_pin LED) (power_log LOW k) = led_pulse
          else io_log t = io_log s @ [PinMode SpotOn3VSense INPUT, DigitalRead SpotOn3VSense HIGH]"
    by (auto simp: pressed_def skipped_def led_power_log)
next
  fix t assume "Spot_Turn_Off s = Some t"
  from Spot_Turn_Off_Some [OF this]
  show "if sense s (nreads s) = HIGH
          then \<exists>k. io_log t = io_log s @ power_log HIGH k \<and>
                   filter (on_pin LED) (power_log HIGH k) = led_pulse
          else io_log t = io_log s @ [PinMode SpotOn3VSense INPUT, DigitalRead SpotOn3VSense LOW]"
    by (auto simp: pressed_def skipped_def led_power_log)
qed (simp_all add: io_log_Spot_Message_OK io_log_Spot_Message_Custom)

theorem led_pulse_of_primitives_witness:
  "sense slow (nreads slow) = LOW
   \<and> map_option (\<lambda>t. filter (on_pin LED) (io_log t)) (Spot_Turn_On slow) = Some led_pulse
   \<and> sense stuck (nreads stuck) = HIGH
   \<and> map_option (\<lambda>t. filter (on_pin LED) (io_log t)) (Spot_Turn_Off stuck) = Some led_pulse"
proof -
  have a: "sense slow (nreads slow) = LOW" "io_log slow = []"
    and b: "sense stuck (nreads stuck) = HIGH" "io_log stuck = []"
    by (simp_all add: slow_def stuck_def bench_def)
  obtain t1 t2 where t: "Spot_Turn_On slow = Some t1" "Spot_Turn_Off stuck = Some t2"
    using slow_on stuck_off by blast
  from led_pulse_of_primitives [of slow] t(1) a
  have "filter (on_pin LED) (io_log t1) = led_pulse" by auto
  moreover from led_pulse_of_primitives [of stuck] t(2) b
  have "filter (on_pin LED) (io_log t2) = led_pulse" by auto
  ultimately show ?thesis using a b t by simp
qed

text \<open>
  Claim C9 as stated fails: called while the sense line reads HIGH, \<open>Spot_Turn_On\<close>
  returns and its log holds no call on the LED pin.
\<close>

theorem no_pulse_when_already_on:
  "map_option io_log (Spot_Turn_On (bench\<lparr>nreads := 1\<rparr>)) =
     Some [PinMode SpotOn3VSense INPUT, DigitalRead SpotOn3VSense HIGH]
   \<and> filter (on_pin LED) [PinMode SpotOn3VSense INPUT, DigitalRead SpotOn3VSense HIGH] = []"
  by (simp add: Spot_Turn_On_skipped skipped_def bench_def pin_defs)

end
